theory Spec2Isabelle
  imports Complex_Main "HOL-Library.Word" "HOL-Library.Monad_Syntax" "HOL-Library.Sublist"
begin

section \<open>Duration planner\<close>

text \<open>
  The two constants of the page module, and the plan computed twice in the source: once in the
  \<^verbatim>\<open>totalDuration\<close> memo (which returns 0 for an empty list) and once inside
  \<^verbatim>\<open>handleGenerateVideo\<close> (reached only with a non-empty list).
  The item count is an array length, so it is a \<^typ>\<open>nat\<close>.
\<close>

definition MIN_VIDEO_DURATION_SECONDS :: nat where
  "MIN_VIDEO_DURATION_SECONDS = 240"

definition FALLBACK_SLIDE_DURATION :: nat where
  "FALLBACK_SLIDE_DURATION = 40"

text \<open>
  \<^verbatim>\<open>Math.ceil(a / b)\<close> for a natural \<open>a\<close> and a positive natural \<open>b\<close>. Both callers
  exclude \<open>b = 0\<close> before dividing.
\<close>

definition ceil_div :: "nat \<Rightarrow> nat \<Rightarrow> nat" where
  "ceil_div a b = (a + b - 1) div b"

text \<open>Lines 212-216: \<^verbatim>\<open>perSlideDuration\<close> and \<^verbatim>\<open>finalDuration\<close>.\<close>

definition perSlideDuration :: "nat \<Rightarrow> nat" where
  "perSlideDuration n = max (ceil_div MIN_VIDEO_DURATION_SECONDS n) FALLBACK_SLIDE_DURATION"

definition finalDuration :: "nat \<Rightarrow> nat" where
  "finalDuration n = perSlideDuration n * n"

text \<open>Lines 135-144: the \<^verbatim>\<open>totalDuration\<close> memo.\<close>

definition totalDuration :: "nat \<Rightarrow> nat" where
  "totalDuration n =
     (if n = 0 then 0
      else (let perSlide = max (ceil_div MIN_VIDEO_DURATION_SECONDS n) FALLBACK_SLIDE_DURATION
            in perSlide * n))"

section \<open>JavaScript strings\<close>

text \<open>
  A JavaScript string is a sequence of UTF-16 code units; \<^verbatim>\<open>length\<close>, \<^verbatim>\<open>slice\<close> and the
  regular expressions of the source (none has the \<^verbatim>\<open>u\<close> flag) all count code units.
  \<open>ascii\<close> embeds an ASCII literal of the source.
\<close>

type_synonym jschar = "16 word"
type_synonym jsstring = "jschar list"

definition ascii :: "string \<Rightarrow> jsstring" where
  "ascii s = map (\<lambda>c. of_char c) s"

definition NL :: jschar where "NL = 0x0A"
definition SP :: jschar where "SP = 0x20"
definition APOS :: jschar where "APOS = 0x27"
definition DOT :: jschar where "DOT = 0x2E"
definition MIDDLE_DOT :: jschar where "MIDDLE_DOT = 0xB7"
definition ELLIPSIS :: jschar where "ELLIPSIS = 0x2026"

text \<open>
  A number in a template literal. The numbers rendered by the modelled code are natural
  numbers, which JavaScript prints in plain decimal below \<open>10^21\<close>. From \<open>10^21\<close> on it
  prints an exponent form, which is not modelled.
\<close>

definition digit_char :: "nat \<Rightarrow> jschar" where
  "digit_char n = of_nat (48 + n)"

fun Number_toString :: "nat \<Rightarrow> jsstring" where
  "Number_toString n =
     (if n < 10 then [digit_char n]
      else Number_toString (n div 10) @ [digit_char (n mod 10)])"

declare Number_toString.simps [simp del]

text \<open>\<^verbatim>\<open>Array.prototype.join\<close> on an array of strings.\<close>

fun array_join :: "jsstring \<Rightarrow> jsstring list \<Rightarrow> jsstring" where
  "array_join sep [] = []"
| "array_join sep [x] = x"
| "array_join sep (x # y # ys) = x @ sep @ array_join sep (y # ys)"

section \<open>Concatenation manifest builder\<close>

text \<open>
  Lines 616-627. Each slide contributes the two lines \<^verbatim>\<open>file '<name>'\<close> and
  \<^verbatim>\<open>duration <seconds>\<close>; the pieces are joined by a newline, and a last line
  \<^verbatim>\<open>file '<last>'\<close> follows. On an empty array \<^verbatim>\<open>slideNames[slideNames.length - 1]\<close>
  is \<^verbatim>\<open>undefined\<close>, which the template prints as the word \<^verbatim>\<open>undefined\<close>.
\<close>

definition buildConcatScript :: "jsstring list \<Rightarrow> nat \<Rightarrow> jsstring" where
  "buildConcatScript slideNames durationSeconds =
     (let body = array_join [NL]
            (map (\<lambda>name. ascii ''file '' @ [APOS] @ name @ [APOS] @ [NL]
                          @ ascii ''duration '' @ Number_toString durationSeconds)
               slideNames);
          last_name = (if slideNames = [] then ascii ''undefined'' else last slideNames)
      in body @ [NL] @ ascii ''file '' @ [APOS] @ last_name @ [APOS])"

text \<open>
  The manifest as the specification words it: a list of directives, one \<open>File\<close> and one
  \<open>Duration\<close> per slide in input order, then a trailing \<open>File\<close> for the last slide. It is
  compared with the text that \<open>buildConcatScript\<close> produces.
\<close>

datatype directive = File jsstring | Duration nat

fun render_directive :: "directive \<Rightarrow> jsstring" where
  "render_directive (File name) = ascii ''file '' @ [APOS] @ name @ [APOS]"
| "render_directive (Duration d) = ascii ''duration '' @ Number_toString d"

definition manifest_directives :: "jsstring list \<Rightarrow> nat \<Rightarrow> directive list" where
  "manifest_directives names d =
     concat (map (\<lambda>name. [File name, Duration d]) names) @ [File (last names)]"

text \<open>The lines of a text: its maximal pieces between newlines.\<close>

fun split_lines_acc :: "jsstring \<Rightarrow> jsstring \<Rightarrow> jsstring list" where
  "split_lines_acc cur [] = [cur]"
| "split_lines_acc cur (c # cs) =
     (if c = NL then cur # split_lines_acc [] cs else split_lines_acc (cur @ [c]) cs)"

definition split_lines :: "jsstring \<Rightarrow> jsstring list" where
  "split_lines s = split_lines_acc [] s"

definition is_file_line :: "jsstring \<Rightarrow> bool" where
  "is_file_line l = (take 5 l = ascii ''file '')"

definition is_duration_line :: "jsstring \<Rightarrow> bool" where
  "is_duration_line l = (take 9 l = ascii ''duration '')"

section \<open>Content normalizer\<close>

text \<open>
  The \<^verbatim>\<open>GET\<close> route. A raw post has the fields of \<^verbatim>\<open>RedditPost\<close>. The identifier is
  optional in the model because the route guards it (\<^verbatim>\<open>Boolean(post?.id)\<close>): \<open>None\<close> is
  a missing identifier. The two counters are optional because the route defaults them
  (\<^verbatim>\<open>?? 0\<close>). \<^verbatim>\<open>created_utc\<close> is a whole number of seconds.
\<close>

record RedditPost =
  p_id :: "jsstring option"
  p_title :: jsstring
  p_selftext :: jsstring
  p_url :: jsstring
  p_author :: jsstring
  p_created_utc :: int
  p_permalink :: jsstring
  p_stickied :: bool
  p_over_18 :: bool
  p_thumbnail :: jsstring
  p_num_comments :: "int option"
  p_upvote_ratio :: "rat option"

text \<open>
  \<^verbatim>\<open>RedditListing\<close>: \<^verbatim>\<open>data\<close> may be absent, and so may the \<^verbatim>\<open>data\<close> of a child
  (the route reads it through \<^verbatim>\<open>post?.id\<close>).
\<close>

type_synonym RedditListing = "RedditPost option list option"

record Stats =
  comments :: int
  upvoteRatio :: rat

text \<open>
  \<^verbatim>\<open>IndiaUpdate\<close>. \<open>u_postedAt\<close> holds the time value in milliseconds whose ISO-8601
  rendering the route stores; the rendering itself is not modelled.
\<close>

record IndiaUpdate =
  u_id :: jsstring
  u_title :: jsstring
  u_summary :: jsstring
  u_url :: jsstring
  u_author :: jsstring
  u_postedAt :: int
  u_stats :: Stats

definition ITEMS_LIMIT :: nat where
  "ITEMS_LIMIT = 10"

text \<open>The white space and line terminators of ECMAScript, which \<^verbatim>\<open>trim\<close> removes and
  \<^verbatim>\<open>\s\<close> matches.\<close>

definition is_js_whitespace :: "jschar \<Rightarrow> bool" where
  "is_js_whitespace c \<longleftrightarrow>
     c \<in> {0x09, 0x0A, 0x0B, 0x0C, 0x0D, 0x20, 0xA0, 0x1680, 0x2028, 0x2029, 0x202F, 0x205F,
          0x3000, 0xFEFF}
     \<or> (0x2000 \<le> c \<and> c \<le> 0x200A)"

definition trim :: "jsstring \<Rightarrow> jsstring" where
  "trim s = rev (dropWhile is_js_whitespace (rev (dropWhile is_js_whitespace s)))"

text \<open>\<^verbatim>\<open>title.replace(/\.$/, "")\<close>: one period at the very end is removed.\<close>

definition strip_final_period :: "jsstring \<Rightarrow> jsstring" where
  "strip_final_period s = (if s \<noteq> [] \<and> last s = DOT then butlast s else s)"

text \<open>Lines 70-73: \<^verbatim>\<open>summarySource\<close> and \<^verbatim>\<open>summary\<close>; the empty string is falsy.\<close>

definition summarySource :: "RedditPost \<Rightarrow> jsstring" where
  "summarySource post = trim (p_selftext post)"

definition summary :: "RedditPost \<Rightarrow> jsstring" where
  "summary post =
     (if summarySource post \<noteq> [] then summarySource post
      else ascii ''Stay informed: '' @ strip_final_period (p_title post)
           @ ascii ''. For the full context, visit the linked article.'')"

text \<open>
  \<^verbatim>\<open>new Date(ms).toISOString()\<close> throws a \<^verbatim>\<open>RangeError\<close> when the time value is
  outside the range of \<^verbatim>\<open>Date\<close>, 8.64e15 milliseconds either side of the epoch.
\<close>

definition Date_valid :: "int \<Rightarrow> bool" where
  "Date_valid ms \<longleftrightarrow> \<bar>ms\<bar> \<le> 8640000000000000"

text \<open>
  Lines 69-87, the callback of the last \<^verbatim>\<open>map\<close>: the item that it builds (\<open>update_of\<close>),
  and the callback itself (\<open>toUpdate\<close>), where \<open>None\<close> is the \<^verbatim>\<open>RangeError\<close> of an
  invalid date. The callback runs only on posts that passed the identifier filter, so
  \<open>p_id post\<close> is \<open>Some\<close> there.
\<close>

definition update_of :: "RedditPost \<Rightarrow> IndiaUpdate" where
  "update_of post =
     \<lparr> u_id = the (p_id post),
       u_title = p_title post,
       u_summary = (if length (summary post) > 600
                    then take 597 (summary post) @ ascii ''...''
                    else summary post),
       u_url = ascii ''https://www.reddit.com'' @ p_permalink post,
       u_author = p_author post,
       u_postedAt = p_created_utc post * 1000,
       u_stats = \<lparr> comments = (case p_num_comments post of None \<Rightarrow> 0 | Some n \<Rightarrow> n),
                   upvoteRatio = (case p_upvote_ratio post of None \<Rightarrow> 0 | Some r \<Rightarrow> r) \<rparr> \<rparr>"

definition toUpdate :: "RedditPost \<Rightarrow> IndiaUpdate option" where
  "toUpdate post =
     (if Date_valid (p_created_utc post * 1000) then Some (update_of post) else None)"

text \<open>Line 66: \<^verbatim>\<open>Boolean(post?.id)\<close>.\<close>

definition has_id :: "RedditPost option \<Rightarrow> bool" where
  "has_id child =
     (case child of
        None \<Rightarrow> False
      | Some post \<Rightarrow> (case p_id post of None \<Rightarrow> False | Some i \<Rightarrow> i \<noteq> []))"

text \<open>
  Lines 62-87: the chain \<^verbatim>\<open>map / filter / filter / slice / map\<close>. \<open>None\<close> is an exception
  thrown by the last callback.
\<close>

definition normalizeItems :: "RedditListing \<Rightarrow> IndiaUpdate list option" where
  "normalizeItems payload =
     (let posts = (case payload of None \<Rightarrow> [] | Some children \<Rightarrow> children);
          identified = map the (filter has_id posts);
          visible = filter (\<lambda>post. \<not> p_stickied post \<and> \<not> p_over_18 post) identified;
          bounded = take ITEMS_LIMIT visible
      in those (map toUpdate bounded))"

text \<open>
  What the route sees of the feed: the fetch rejects, or it answers with its \<^verbatim>\<open>ok\<close> flag,
  its status and a body, where \<open>None\<close> is a body that \<^verbatim>\<open>response.json()\<close> rejects or that
  is not an object. Every exception inside the route is caught and answered with status 500.
\<close>

datatype fetch_outcome = FetchRejected | FetchResponse bool nat "RedditListing option"

datatype api_response = ItemsResponse "IndiaUpdate list" | ErrorResponse jsstring nat

text \<open>
  Lines 55-58 build a response with a body and the status of the feed. The constructor
  of \<^verbatim>\<open>Response\<close> throws a \<^verbatim>\<open>RangeError\<close> for a status outside 200-599 and a
  \<^verbatim>\<open>TypeError\<close> for a status that cannot carry a body (204, 205 and 304 in that range).
\<close>

definition status_carries_body :: "nat \<Rightarrow> bool" where
  "status_carries_body status \<longleftrightarrow>
     200 \<le> status \<and> status \<le> 599 \<and> status \<notin> {204, 205, 304}"

definition GET :: "fetch_outcome \<Rightarrow> api_response" where
  "GET outcome =
     (case outcome of
        FetchRejected \<Rightarrow> ErrorResponse (ascii ''Unexpected error while fetching updates.'') 500
      | FetchResponse ok status body \<Rightarrow>
          if \<not> ok
          then (if status_carries_body status
                then ErrorResponse (ascii ''Failed to fetch India updates.'') status
                else ErrorResponse (ascii ''Unexpected error while fetching updates.'') 500)
          else (case body of
                  None \<Rightarrow> ErrorResponse (ascii ''Unexpected error while fetching updates.'') 500
                | Some payload \<Rightarrow>
                    (case normalizeItems payload of
                       None \<Rightarrow>
                         ErrorResponse (ascii ''Unexpected error while fetching updates.'') 500
                     | Some items \<Rightarrow> ItemsResponse items)))"

text \<open>
  The normalizer as the specification words it: a record is eligible when it has an
  identifier and is neither pinned nor adult; the survivors are the eligible records in
  feed order.
\<close>

definition is_pinned :: "RedditPost option \<Rightarrow> bool" where
  "is_pinned child = (case child of None \<Rightarrow> False | Some post \<Rightarrow> p_stickied post)"

definition is_adult :: "RedditPost option \<Rightarrow> bool" where
  "is_adult child = (case child of None \<Rightarrow> False | Some post \<Rightarrow> p_over_18 post)"

definition eligible :: "RedditPost option \<Rightarrow> bool" where
  "eligible child \<longleftrightarrow> has_id child \<and> \<not> is_pinned child \<and> \<not> is_adult child"

definition survivors :: "RedditPost option list \<Rightarrow> RedditPost list" where
  "survivors children = map the (filter eligible children)"

text \<open>A feed record for examples: identifier, body text, and the two flags.\<close>

definition sample_post :: "string \<Rightarrow> jsstring \<Rightarrow> bool \<Rightarrow> bool \<Rightarrow> RedditPost option" where
  "sample_post i body pinned adult =
     Some \<lparr> p_id = Some (ascii i), p_title = ascii ''Markets rally.'', p_selftext = body,
            p_url = ascii ''https://example.org/story'', p_author = ascii ''reporter'',
            p_created_utc = 1700000000, p_permalink = ascii ''/r/india/comments/'' @ ascii i,
            p_stickied = pinned, p_over_18 = adult, p_thumbnail = ascii ''self'',
            p_num_comments = Some 12, p_upvote_ratio = None \<rparr>"

definition sample_feed :: "RedditPost option list" where
  "sample_feed =
     [sample_post ''a'' [] False False, sample_post ''b'' [] False False,
      sample_post ''c'' [] True False, sample_post ''d'' [] False False,
      sample_post ''e'' [] False False, sample_post ''f'' [] True False,
      sample_post ''g'' [] False False, sample_post ''h'' [] False False,
      sample_post ''i'' [] False True, sample_post ''j'' [] False False,
      sample_post ''k'' [] False False, sample_post ''l'' [] False False]"

section \<open>Silent track generator\<close>

text \<open>
  A \<^verbatim>\<open>DataView\<close> over a whole \<^verbatim>\<open>ArrayBuffer\<close> is the list of its bytes. A write outside
  the view throws a \<^verbatim>\<open>RangeError\<close> (\<open>None\<close>). The value written is reduced modulo
  \<open>2^8\<close>, \<open>2^16\<close> or \<open>2^32\<close>, as \<^verbatim>\<open>ToUint8\<close>, \<^verbatim>\<open>ToUint16\<close> and \<^verbatim>\<open>ToUint32\<close> do;
  \<open>of_nat\<close> into \<^typ>\<open>8 word\<close> keeps the low eight bits. The values written by the modelled
  code are natural numbers.
\<close>

type_synonym byte = "8 word"

definition setUint8 :: "byte list \<Rightarrow> nat \<Rightarrow> nat \<Rightarrow> byte list option" where
  "setUint8 view byteOffset v =
     (if byteOffset + 1 \<le> length view then Some (view[byteOffset := of_nat v]) else None)"

definition setUint16 :: "byte list \<Rightarrow> nat \<Rightarrow> nat \<Rightarrow> bool \<Rightarrow> byte list option" where
  "setUint16 view byteOffset v littleEndian =
     (if byteOffset + 2 \<le> length view
      then Some (if littleEndian
                 then view[byteOffset := of_nat v, byteOffset + 1 := of_nat (v div 256)]
                 else view[byteOffset := of_nat (v div 256), byteOffset + 1 := of_nat v])
      else None)"

definition setUint32 :: "byte list \<Rightarrow> nat \<Rightarrow> nat \<Rightarrow> bool \<Rightarrow> byte list option" where
  "setUint32 view byteOffset v littleEndian =
     (if byteOffset + 4 \<le> length view
      then Some (if littleEndian
                 then view[byteOffset := of_nat v,
                           byteOffset + 1 := of_nat (v div 256),
                           byteOffset + 2 := of_nat (v div 65536),
                           byteOffset + 3 := of_nat (v div 16777216)]
                 else view[byteOffset := of_nat (v div 16777216),
                           byteOffset + 1 := of_nat (v div 65536),
                           byteOffset + 2 := of_nat (v div 256),
                           byteOffset + 3 := of_nat v])
      else None)"

text \<open>The readers of \<^verbatim>\<open>DataView\<close>, by which a consumer decodes the header fields.\<close>

definition getUint16 :: "byte list \<Rightarrow> nat \<Rightarrow> bool \<Rightarrow> nat option" where
  "getUint16 view byteOffset littleEndian =
     (if byteOffset + 2 \<le> length view
      then Some (if littleEndian
                 then unat (view ! byteOffset) + 256 * unat (view ! (byteOffset + 1))
                 else 256 * unat (view ! byteOffset) + unat (view ! (byteOffset + 1)))
      else None)"

definition getUint32 :: "byte list \<Rightarrow> nat \<Rightarrow> bool \<Rightarrow> nat option" where
  "getUint32 view byteOffset littleEndian =
     (if byteOffset + 4 \<le> length view
      then Some (if littleEndian
                 then unat (view ! byteOffset) + 256 * unat (view ! (byteOffset + 1))
                      + 65536 * unat (view ! (byteOffset + 2))
                      + 16777216 * unat (view ! (byteOffset + 3))
                 else 16777216 * unat (view ! byteOffset)
                      + 65536 * unat (view ! (byteOffset + 1))
                      + 256 * unat (view ! (byteOffset + 2)) + unat (view ! (byteOffset + 3)))
      else None)"

text \<open>Lines 655-659: one \<^verbatim>\<open>setUint8\<close> per code unit, at \<^verbatim>\<open>offset + i\<close>.\<close>

fun writeString :: "byte list \<Rightarrow> nat \<Rightarrow> jsstring \<Rightarrow> byte list option" where
  "writeString view offset [] = Some view"
| "writeString view offset (c # cs) =
     (case setUint8 view offset (unat c) of
        None \<Rightarrow> None
      | Some view' \<Rightarrow> writeString view' (offset + 1) cs)"

text \<open>
  \<^verbatim>\<open>new ArrayBuffer(length)\<close>. The constructor throws a \<^verbatim>\<open>RangeError\<close> (\<open>None\<close>) when the
  length is above \<open>2^53 - 1\<close>, the largest integer index, and when the engine cannot
  allocate that many bytes. What the engine can allocate depends on the engine and on the
  memory it has: \<open>alloc length\<close> says whether it allocates a buffer of that length. A fresh
  buffer is zero-filled.
\<close>

definition MAX_SAFE_INTEGER :: nat where
  "MAX_SAFE_INTEGER = 2 ^ 53 - 1"

definition new_ArrayBuffer :: "(nat \<Rightarrow> bool) \<Rightarrow> nat \<Rightarrow> byte list option" where
  "new_ArrayBuffer alloc byteLength =
     (if byteLength \<le> MAX_SAFE_INTEGER \<and> alloc byteLength
      then Some (replicate byteLength 0) else None)"

text \<open>
  Lines 629-653. The duration is a natural number of seconds. The source computes the
  lengths in double precision: the products and the sum are exact as long as
  \<open>44 + dataLength\<close> is at most \<open>2^53 - 1\<close>, and when it is larger the rounded sum is at
  least \<open>2^53\<close>, so that the allocation throws as it does here. The view covers the whole
  buffer, and the array returned is the buffer as the view has left it.
\<close>

definition generateSilenceWav :: "(nat \<Rightarrow> bool) \<Rightarrow> nat \<Rightarrow> byte list option" where
  "generateSilenceWav alloc durationSeconds =
     (let sampleRate = 44100;
          channels = 1;
          bytesPerSample = 2;
          totalSamples = durationSeconds * sampleRate;
          dataLength = totalSamples * bytesPerSample * channels
      in do {
        buffer \<leftarrow> new_ArrayBuffer alloc (44 + dataLength);
        view \<leftarrow> writeString buffer 0 (ascii ''RIFF'');
        view \<leftarrow> setUint32 view 4 (36 + dataLength) True;
        view \<leftarrow> writeString view 8 (ascii ''WAVE'');
        view \<leftarrow> writeString view 12 (ascii ''fmt '');
        view \<leftarrow> setUint32 view 16 16 True;
        view \<leftarrow> setUint16 view 20 1 True;
        view \<leftarrow> setUint16 view 22 channels True;
        view \<leftarrow> setUint32 view 24 sampleRate True;
        view \<leftarrow> setUint32 view 28 (sampleRate * channels * bytesPerSample) True;
        view \<leftarrow> setUint16 view 32 (channels * bytesPerSample) True;
        view \<leftarrow> setUint16 view 34 (bytesPerSample * 8) True;
        view \<leftarrow> writeString view 36 (ascii ''data'');
        view \<leftarrow> setUint32 view 40 dataLength True;
        Some view
      })"

text \<open>The 44 header bytes in closed form, for a data length \<open>n\<close>.\<close>

definition wav_header :: "nat \<Rightarrow> byte list" where
  "wav_header n =
     [0x52, 0x49, 0x46, 0x46,
      of_nat (36 + n), of_nat ((36 + n) div 256), of_nat ((36 + n) div 65536),
      of_nat ((36 + n) div 16777216),
      0x57, 0x41, 0x56, 0x45,
      0x66, 0x6D, 0x74, 0x20,
      16, 0, 0, 0,
      1, 0,
      1, 0,
      0x44, 0xAC, 0, 0,
      0x88, 0x58, 0x01, 0,
      2, 0,
      16, 0,
      0x64, 0x61, 0x74, 0x61,
      of_nat n, of_nat (n div 256), of_nat (n div 65536), of_nat (n div 16777216)]"

text \<open>The two length fields of the header, as a consumer reads them.\<close>

definition riff_length_field :: "byte list \<Rightarrow> nat option" where
  "riff_length_field buf = getUint32 buf 4 True"

definition data_length_field :: "byte list \<Rightarrow> nat option" where
  "data_length_field buf = getUint32 buf 40 True"

section \<open>Pipeline orchestrator\<close>

text \<open>
  The page component: its React state, its two refs, and the effects that the handlers
  have had on the world outside (the encoder, its file system, object URLs, the console),
  in the order in which they happened.
\<close>

datatype file_data = SlideImage nat | ManifestText jsstring | WavBytes "byte list"

datatype event =
    CreateFFmpeg
  | LoadFFmpeg
  | RenderSlide IndiaUpdate nat nat
  | FSWriteFile jsstring file_data
  | FFmpegRun "jsstring list"
  | FSReadFile jsstring
  | CreateObjectURL jsstring
  | RevokeObjectURL jsstring
  | ConsoleError

record page =
  updates :: "IndiaUpdate list"
  loadingUpdates :: bool
  error :: "jsstring option"
  narration :: jsstring
  isGenerating :: bool
  videoUrl :: "jsstring option"
  videoDuration :: "nat option"
  logs :: "jsstring list"
  ffmpegRef :: bool
  isMountedRef :: bool
  effects :: "event list"

text \<open>
  The collaborators. Each call that the handler makes to the encoder, the canvas or the
  browser is a stage; the environment says whether the stage throws (and what), which lines
  the encoder logs during it, and which URL \<^verbatim>\<open>URL.createObjectURL\<close> returns.
  \<open>RenderStage\<close> covers all of \<^verbatim>\<open>renderSlide\<close>, the missing canvas context included.
  The environment also says which buffer lengths the engine allocates (\<open>grants\<close>), and
  with which message its \<^verbatim>\<open>RangeError\<close> refuses the others (\<open>refusal\<close>).
\<close>

datatype thrown = ErrorObject jsstring | OtherValue

datatype stage =
    LoadEncoder
  | RenderStage nat
  | WriteSlide nat
  | WriteManifest
  | WriteSilence
  | RunEncoder
  | ReadOutput
  | CreateUrl

record env =
  throws :: "stage \<Rightarrow> thrown option"
  emits :: "stage \<Rightarrow> jsstring list"
  fresh_url :: jsstring
  grants :: "nat \<Rightarrow> bool"
  refusal :: jsstring

text \<open>Lines 185-193: the logger keeps the last 120 lines, while the page is mounted.\<close>

definition logger :: "jsstring \<Rightarrow> page \<Rightarrow> page" where
  "logger message s =
     (if \<not> isMountedRef s then s
      else s\<lparr>logs := (let next = logs s @ [message] in drop (length next - 120) next)\<rparr>)"

text \<open>
  One call to a collaborator: the encoder logs, then the call throws or has its effect.
  A result is \<open>Inl\<close> of the thrown value or \<open>Inr\<close> of the value returned.
\<close>

definition perform :: "env \<Rightarrow> stage \<Rightarrow> event \<Rightarrow> page \<Rightarrow> (thrown + unit) \<times> page" where
  "perform e st ev s =
     (let s1 = fold logger (emits e st) s
      in case throws e st of
           Some t \<Rightarrow> (Inl t, s1)
         | None \<Rightarrow> (Inr (), s1\<lparr>effects := effects s1 @ [ev]\<rparr>))"

text \<open>Sequencing inside the \<^verbatim>\<open>try\<close> block: a thrown value skips what follows.\<close>

definition then_do ::
  "(thrown + 'a) \<times> page \<Rightarrow> ('a \<Rightarrow> page \<Rightarrow> (thrown + 'b) \<times> page) \<Rightarrow> (thrown + 'b) \<times> page" where
  "then_do r f = (case r of (Inl t, s) \<Rightarrow> (Inl t, s) | (Inr a, s) \<Rightarrow> f a s)"

text \<open>Lines 175-198: the encoder is created and loaded once, and kept in the ref.\<close>

definition ensureFFmpeg :: "env \<Rightarrow> page \<Rightarrow> (thrown + unit) \<times> page" where
  "ensureFFmpeg e s =
     (if ffmpegRef s then (Inr (), s)
      else then_do (perform e LoadEncoder LoadFFmpeg (s\<lparr>effects := effects s @ [CreateFFmpeg]\<rparr>))
             (\<lambda>_ s. (Inr (), s\<lparr>ffmpegRef := True\<rparr>)))"

text \<open>Lines 219-226: the loop over the slides, by index.\<close>

fun prepare_slides ::
  "env \<Rightarrow> IndiaUpdate list \<Rightarrow> nat list \<Rightarrow> jsstring list \<Rightarrow> page \<Rightarrow> (thrown + jsstring list) \<times> page" where
  "prepare_slides e ups [] slideNames s = (Inr slideNames, s)"
| "prepare_slides e ups (index # rest) slideNames s =
     (let slideName = ascii ''slide-'' @ Number_toString index @ ascii ''.png''
      in then_do (perform e (RenderStage index) (RenderSlide (ups ! index) index (length ups)) s)
           (\<lambda>_ s. then_do (perform e (WriteSlide index) (FSWriteFile slideName (SlideImage index)) s)
             (\<lambda>_ s. prepare_slides e ups rest (slideNames @ [slideName]) s)))"

definition ffmpeg_args :: "jsstring list" where
  "ffmpeg_args =
     map ascii [''-f'', ''concat'', ''-safe'', ''0'', ''-i'', ''slides.txt'', ''-i'', ''silence.wav'',
                ''-shortest'', ''-r'', ''30'', ''-c:v'', ''libx264'', ''-pix_fmt'', ''yuv420p'',
                ''-c:a'', ''aac'', ''-b:a'', ''128k'', ''output.mp4'']"

text \<open>
  Lines 210-275, the body of the \<^verbatim>\<open>try\<close> block. The handler reads \<^verbatim>\<open>updates\<close> and
  \<^verbatim>\<open>videoUrl\<close> from its closure; nothing changes them before the last two lines, so the
  model reads them from the state it threads. The empty string is falsy in
  \<^verbatim>\<open>if (videoUrl)\<close>. \<^verbatim>\<open>generateSilenceWav\<close> runs before the call that writes its result:
  when it throws, nothing is written.
\<close>

definition generate_try :: "env \<Rightarrow> page \<Rightarrow> (thrown + unit) \<times> page" where
  "generate_try e s0 =
     then_do (ensureFFmpeg e s0) (\<lambda>_ s.
       let perSlide = max (ceil_div MIN_VIDEO_DURATION_SECONDS (length (updates s)))
                          FALLBACK_SLIDE_DURATION;
           final = perSlide * length (updates s)
       in then_do (prepare_slides e (updates s) [0..<length (updates s)] [] s) (\<lambda>slideNames s.
            let concatScript = buildConcatScript slideNames perSlide
            in then_do (perform e WriteManifest
                          (FSWriteFile (ascii ''slides.txt'') (ManifestText concatScript)) s) (\<lambda>_ s.
                 then_do (case generateSilenceWav (grants e) final of
                            None \<Rightarrow> (Inl (ErrorObject (refusal e)), s)
                          | Some silence \<Rightarrow>
                              perform e WriteSilence
                                (FSWriteFile (ascii ''silence.wav'') (WavBytes silence)) s) (\<lambda>_ s.
                   then_do (perform e RunEncoder (FFmpegRun ffmpeg_args) s) (\<lambda>_ s.
                     then_do (perform e ReadOutput (FSReadFile (ascii ''output.mp4'')) s) (\<lambda>_ s.
                       then_do (perform e CreateUrl (CreateObjectURL (fresh_url e)) s) (\<lambda>_ s.
                         let s = (case videoUrl s of
                                    None \<Rightarrow> s
                                  | Some old \<Rightarrow>
                                      if old \<noteq> [] then s\<lparr>effects := effects s @ [RevokeObjectURL old]\<rparr>
                                      else s)
                         in (Inr (), s\<lparr>videoUrl := Some (fresh_url e),
                                        videoDuration := Some final\<rparr>))))))))"

text \<open>Lines 200-288: the handler, with its guard, its \<^verbatim>\<open>catch\<close> and its \<^verbatim>\<open>finally\<close>.\<close>

definition handleGenerateVideo :: "env \<Rightarrow> page \<Rightarrow> page" where
  "handleGenerateVideo e s =
     (if updates s = []
      then s\<lparr>error := Some (ascii ''Fetch the latest India updates before generating a video.'')\<rparr>
      else
        let s1 = s\<lparr>isGenerating := True, error := None, logs := []\<rparr>;
            (r, s2) = generate_try e s1;
            s3 = (case r of
                    Inr _ \<Rightarrow> s2
                  | Inl t \<Rightarrow>
                      s2\<lparr>effects := effects s2 @ [ConsoleError],
                         error := Some (case t of
                                          ErrorObject message \<Rightarrow> message
                                        | OtherValue \<Rightarrow>
                                            ascii ''Something went wrong while generating the video.'')\<rparr>)
        in if isMountedRef s3 then s3\<lparr>isGenerating := False\<rparr> else s3)"

text \<open>Examples of a page and of its collaborators.\<close>

definition sample_update :: "string \<Rightarrow> IndiaUpdate" where
  "sample_update i =
     \<lparr> u_id = ascii i, u_title = ascii ''Markets rally'', u_summary = ascii ''Stocks rose.'',
       u_url = ascii ''https://www.reddit.com/r/india/comments/'' @ ascii i,
       u_author = ascii ''reporter'', u_postedAt = 1700000000000,
       u_stats = \<lparr> comments = 12, upvoteRatio = 0 \<rparr> \<rparr>"

definition fresh_page :: page where
  "fresh_page =
     \<lparr> updates = [], loadingUpdates = False, error = None, narration = [],
       isGenerating = False, videoUrl = None, videoDuration = None, logs = [],
       ffmpegRef = False, isMountedRef = True, effects = [] \<rparr>"

definition calm_env :: env where
  "calm_env =
     \<lparr> throws = (\<lambda>_. None), emits = (\<lambda>_. []), fresh_url = ascii ''blob:new'',
       grants = (\<lambda>_. True), refusal = ascii ''Array buffer allocation failed'' \<rparr>"

definition stingy_env :: env where
  "stingy_env = calm_env\<lparr>grants := (\<lambda>byteLength. False)\<rparr>"

definition failing_env :: "stage \<Rightarrow> env" where
  "failing_env st =
     \<lparr> throws = (\<lambda>x. if x = st then Some (ErrorObject (ascii ''failed'')) else None),
       emits = (\<lambda>_. []), fresh_url = ascii ''blob:new'',
       grants = (\<lambda>_. True), refusal = ascii ''Array buffer allocation failed'' \<rparr>"

text \<open>
  Vocabulary for the properties of a run: the effects a run adds, the stages it goes
  through, and the release of an object URL.
\<close>

definition new_effects :: "page \<Rightarrow> page \<Rightarrow> event list" where
  "new_effects s s' = drop (length (effects s)) (effects s')"

definition is_revoke :: "event \<Rightarrow> bool" where
  "is_revoke ev = (case ev of RevokeObjectURL _ \<Rightarrow> True | _ \<Rightarrow> False)"

definition pipeline_stages :: "page \<Rightarrow> stage list" where
  "pipeline_stages s =
     (if ffmpegRef s then [] else [LoadEncoder])
     @ concat (map (\<lambda>i. [RenderStage i, WriteSlide i]) [0..<length (updates s)])
     @ [WriteManifest, WriteSilence, RunEncoder, ReadOutput, CreateUrl]"

text \<open>
  The buffer that a run asks for, for its silent track, and whether it gets it.
\<close>

definition silence_length :: "page \<Rightarrow> nat" where
  "silence_length s = 44 + finalDuration (length (updates s)) * 44100 * 2"

definition allocates :: "env \<Rightarrow> nat \<Rightarrow> bool" where
  "allocates e byteLength \<longleftrightarrow> byteLength \<le> MAX_SAFE_INTEGER \<and> grants e byteLength"

text \<open>
  \<open>advances s evs s'\<close>: \<open>s'\<close> is \<open>s\<close> with the effects \<open>evs\<close> added, and possibly other
  logs and a loaded encoder; every other field is the same.
\<close>

definition advances :: "page \<Rightarrow> event list \<Rightarrow> page \<Rightarrow> bool" where
  "advances s evs s' \<longleftrightarrow>
     updates s' = updates s \<and> loadingUpdates s' = loadingUpdates s \<and> error s' = error s
     \<and> narration s' = narration s \<and> isGenerating s' = isGenerating s
     \<and> videoUrl s' = videoUrl s \<and> videoDuration s' = videoDuration s
     \<and> isMountedRef s' = isMountedRef s \<and> effects s' = effects s @ evs"

text \<open>
  \<open>reached e s0 R S s\<close>: from \<open>s0\<close> the run has come to \<open>s\<close> without releasing a URL,
  has had the effects \<open>R\<close>, and has passed the stages \<open>S\<close>.
\<close>

definition reached :: "env \<Rightarrow> page \<Rightarrow> event set \<Rightarrow> stage set \<Rightarrow> page \<Rightarrow> bool" where
  "reached e s0 R S s \<longleftrightarrow>
     (\<exists>evs. advances s0 evs s \<and> (\<forall>ev\<in>set evs. \<not> is_revoke ev) \<and> R \<subseteq> set evs)
     \<and> (\<forall>st\<in>S. throws e st = None)"

text \<open>
  \<open>failed e s0 T s\<close>: the run has stopped at \<open>s\<close> because a stage of \<open>T\<close> threw, or
  because the buffer of the silent track was refused.
\<close>

definition failed :: "env \<Rightarrow> page \<Rightarrow> stage set \<Rightarrow> page \<Rightarrow> bool" where
  "failed e s0 T s \<longleftrightarrow>
     reached e s0 {} {} s
     \<and> ((\<exists>st\<in>T. throws e st \<noteq> None) \<or> \<not> allocates e (silence_length s0))"

definition ends ::
  "(thrown + 'a) \<times> page \<Rightarrow> ('a \<Rightarrow> page \<Rightarrow> bool) \<Rightarrow> (page \<Rightarrow> bool) \<Rightarrow> bool" where
  "ends r Q E = (case r of (Inl t, s') \<Rightarrow> E s' | (Inr a, s') \<Rightarrow> Q a s')"

text \<open>The release that a successful run makes of the URL it supersedes.\<close>

definition release_of :: "page \<Rightarrow> event list" where
  "release_of s =
     (case videoUrl s of
        None \<Rightarrow> []
      | Some old \<Rightarrow> if old \<noteq> [] then [RevokeObjectURL old] else [])"

text \<open>
  \<open>completed e s0 s'\<close>: the run from \<open>s0\<close> went through every stage, with the buffer
  of its silent track allocated. Its effects are some
  effects \<open>pre\<close> without a release, among them the rendering of every slide, the manifest,
  the silent track and the encoder run; then the new object URL; then the release of the
  old one. The new URL and duration are published.
\<close>

definition completed :: "env \<Rightarrow> page \<Rightarrow> page \<Rightarrow> bool" where
  "completed e s0 s' \<longleftrightarrow>
     (\<exists>pre s''.
        advances s0 (pre @ [CreateObjectURL (fresh_url e)] @ release_of s0) s''
      \<and> s' = s''\<lparr>videoUrl := Some (fresh_url e),
                 videoDuration := Some (finalDuration (length (updates s0)))\<rparr>
      \<and> (\<forall>ev\<in>set pre. \<not> is_revoke ev)
      \<and> (\<forall>i<length (updates s0).
            RenderSlide (updates s0 ! i) i (length (updates s0)) \<in> set pre)
      \<and> (\<exists>script. FSWriteFile (ascii ''slides.txt'') (ManifestText script) \<in> set pre)
      \<and> (\<exists>silence. FSWriteFile (ascii ''silence.wav'') (WavBytes silence) \<in> set pre)
      \<and> FFmpegRun ffmpeg_args \<in> set pre)
     \<and> (\<forall>st\<in>set (pipeline_stages s0). throws e st = None)
     \<and> allocates e (silence_length s0)"

text \<open>A page that holds one story and the video of an earlier successful run.\<close>

definition page_with_video :: page where
  "page_with_video =
     fresh_page\<lparr>updates := [sample_update ''a''], videoUrl := Some (ascii ''blob:old''),
                videoDuration := Some 240, ffmpegRef := True\<rparr>"

section \<open>Slide renderer: wrapped text\<close>

text \<open>
  \<^verbatim>\<open>text.split(/\s+/)\<close>: the pieces of the text between its maximal runs of white space.
  A text that starts or ends with white space yields an empty first or last piece, and the
  empty text yields one empty piece.
\<close>

function split_ws :: "jsstring \<Rightarrow> jsstring list" where
  "split_ws s =
     (let word = takeWhile (\<lambda>c. \<not> is_js_whitespace c) s;
          rest = dropWhile (\<lambda>c. \<not> is_js_whitespace c) s
      in if rest = [] then [word] else word # split_ws (dropWhile is_js_whitespace rest))"
  by pat_completeness auto
termination
proof (relation "measure length")
  show "wf (measure length)"
    by simp
next
  fix s :: jsstring and word rest
  assume rest: "rest = dropWhile (\<lambda>c. \<not> is_js_whitespace c) s" and ne: "rest \<noteq> []"
  then have "is_js_whitespace (hd rest)"
    using hd_dropWhile [of "\<lambda>c. \<not> is_js_whitespace c" s] by simp
  with ne have "length (dropWhile is_js_whitespace rest) < length rest"
    by (cases rest) (simp_all add: le_imp_less_Suc length_dropWhile_le)
  also have "length rest \<le> length s"
    unfolding rest by (rule length_dropWhile_le)
  finally show "(dropWhile is_js_whitespace rest, s) \<in> measure length"
    by simp
qed

declare split_ws.simps [simp del]

text \<open>
  Lines 566-578, the body of the loop over the words, on the pair of \<^verbatim>\<open>lines\<close> and
  \<^verbatim>\<open>currentLine\<close>. The measurement of the rendering surface is a
  parameter: it gives a width to a line, and widths are compared. The empty string is
  falsy in \<^verbatim>\<open>currentLine ? ... : word\<close> and in \<^verbatim>\<open>width > maxWidth && currentLine\<close>.
\<close>

definition wrap_step ::
  "(jsstring \<Rightarrow> 'w::linorder) \<Rightarrow> 'w \<Rightarrow> jsstring \<Rightarrow> jsstring list \<times> jsstring
   \<Rightarrow> jsstring list \<times> jsstring" where
  "wrap_step measureText maxWidth word st =
     (case st of (lines, currentLine) \<Rightarrow>
        let testLine = (if currentLine \<noteq> [] then currentLine @ [SP] @ word else word);
            width = measureText testLine
        in if width > maxWidth \<and> currentLine \<noteq> []
           then (lines @ [currentLine], word)
           else (lines, testLine))"

text \<open>Lines 565-581: the lines of the wrap, before truncation.\<close>

definition wrapped_lines :: "(jsstring \<Rightarrow> 'w::linorder) \<Rightarrow> 'w \<Rightarrow> jsstring \<Rightarrow> jsstring list" where
  "wrapped_lines measureText maxWidth text =
     (let words = split_ws text;
          (lines, currentLine) = fold (wrap_step measureText maxWidth) words ([], [])
      in if currentLine \<noteq> [] then lines @ [currentLine] else lines)"

text \<open>\<^verbatim>\<open>lines.slice(0, end)\<close> for an integer \<^verbatim>\<open>end\<close>; a negative end counts from the back.\<close>

definition slice0 :: "'a list \<Rightarrow> int \<Rightarrow> 'a list" where
  "slice0 xs end =
     take (nat (if end < 0 then max (int (length xs) + end) 0 else min end (int (length xs)))) xs"

text \<open>\<^verbatim>\<open>last.replace(/[.\<cdot>]+$/, "")\<close>: the trailing run of periods and middle dots is removed.\<close>

definition strip_trailing_dots :: "jsstring \<Rightarrow> jsstring" where
  "strip_trailing_dots s = rev (dropWhile (\<lambda>c. c = DOT \<or> c = MIDDLE_DOT) (rev s))"

text \<open>
  Lines 583-588. When the slice is empty, \<^verbatim>\<open>truncated[truncated.length - 1]\<close> is
  \<^verbatim>\<open>undefined\<close> and the call of \<^verbatim>\<open>replace\<close> on it throws a \<^verbatim>\<open>TypeError\<close> (\<open>None\<close>).
\<close>

definition truncate_lines :: "jsstring list \<Rightarrow> int \<Rightarrow> jsstring list option" where
  "truncate_lines lines maxLines =
     (if int (length lines) > maxLines
      then (let truncated = slice0 lines maxLines
            in if truncated = [] then None
               else Some (truncated[length truncated - 1
                            := strip_trailing_dots (truncated ! (length truncated - 1))
                               @ [ELLIPSIS]]))
      else Some lines)"

text \<open>
  Lines 556-595. The result is the list of \<^verbatim>\<open>fillText\<close> calls (line, x, y) in order, and
  the value returned. Coordinates and the line height are integers.
\<close>

record wrapped_text =
  fillText_calls :: "(jsstring \<times> int \<times> int) list"
  returned :: int

definition drawWrappedText ::
  "(jsstring \<Rightarrow> 'w::linorder) \<Rightarrow> jsstring \<Rightarrow> int \<Rightarrow> int \<Rightarrow> 'w \<Rightarrow> int \<Rightarrow> int
   \<Rightarrow> wrapped_text option" where
  "drawWrappedText measureText text x y maxWidth lineHeight maxLines =
     (case truncate_lines (wrapped_lines measureText maxWidth text) maxLines of
        None \<Rightarrow> None
      | Some truncated \<Rightarrow>
          Some \<lparr> fillText_calls =
                   map (\<lambda>index. (truncated ! index, x, y + int index * lineHeight))
                     [0..<length truncated],
                 returned = y + int (length truncated) * lineHeight \<rparr>)"

text \<open>The lines drawn, top to bottom.\<close>

definition drawn_lines :: "wrapped_text \<Rightarrow> jsstring list" where
  "drawn_lines r = map fst (fillText_calls r)"

text \<open>The words on a line: its pieces between single spaces.\<close>

fun split_spaces :: "jsstring \<Rightarrow> jsstring list" where
  "split_spaces [] = [[]]"
| "split_spaces (c # cs) =
     (if c = SP then [] # split_spaces cs
      else (case split_spaces cs of [] \<Rightarrow> [[c]] | t # ts \<Rightarrow> (c # t) # ts))"

text \<open>A line ends with a single ellipsis marker.\<close>

definition ends_with_single_ellipsis :: "jsstring \<Rightarrow> bool" where
  "ends_with_single_ellipsis l =
     (case rev l of
        [] \<Rightarrow> False
      | [c] \<Rightarrow> c = ELLIPSIS
      | c # c' # _ \<Rightarrow> c = ELLIPSIS \<and> c' \<noteq> ELLIPSIS)"

text \<open>
  Measurement functions for examples: the number of code units of a line, and a function
  that gives a width to the single word \<open>w\<close> only.
\<close>

definition length_measure :: "jsstring \<Rightarrow> nat" where
  "length_measure l = length l"

definition lone_w_measure :: "jsstring \<Rightarrow> nat" where
  "lone_w_measure l = (if l = ascii ''w'' then 10 else 0)"

text \<open>
  The words held by a state of the loop: those on the lines made so far, then those on the
  current line.
\<close>

definition held_words :: "jsstring list \<times> jsstring \<Rightarrow> jsstring list" where
  "held_words st =
     (case st of (lines, currentLine) \<Rightarrow>
        concat (map split_spaces lines)
        @ (if currentLine = [] then [] else split_spaces currentLine))"

section \<open>Properties of the duration planner\<close>

lemma ceil_div_mult_ge:
  assumes "0 < b"
  shows "a \<le> ceil_div a b * b"
proof -
  have "a + b - 1 < ((a + b - 1) div b + 1) * b"
    using assms by (metis Suc_eq_plus1 dividend_less_div_times mult.commute mult_Suc)
  then show ?thesis
    using assms by (simp add: ceil_div_def)
qed

lemma ceil_div_mult_less:
  assumes "0 < b"
  shows "ceil_div a b * b < a + b"
proof -
  have "(a + b - 1) div b * b \<le> a + b - 1"
    by simp
  moreover have "a + b - 1 < a + b"
    using assms by simp
  ultimately show ?thesis
    unfolding ceil_div_def by (rule le_less_trans)
qed

text \<open>The integer formula is the ceiling of the exact quotient, which is what
  \<^verbatim>\<open>Math.ceil\<close> returns for these operands.\<close>

lemma ceil_div_is_ceiling:
  assumes "0 < b"
  shows "\<lceil>real a / real b\<rceil> = int (ceil_div a b)"
proof (rule ceiling_unique)
  have "real (ceil_div a b * b) < real (a + b)"
    using ceil_div_mult_less [OF assms] by (simp only: of_nat_less_iff)
  then have "(real (ceil_div a b) - 1) * real b < real a"
    by (simp add: algebra_simps)
  then show "real_of_int (int (ceil_div a b)) - 1 < real a / real b"
    using assms by (simp add: pos_less_divide_eq)
next
  have "real a \<le> real (ceil_div a b * b)"
    using ceil_div_mult_ge [OF assms] by (simp only: of_nat_le_iff)
  then show "real a / real b \<le> real_of_int (int (ceil_div a b))"
    using assms by (simp add: pos_divide_le_eq)
qed

lemma perSlideDuration_ge_fallback: "FALLBACK_SLIDE_DURATION \<le> perSlideDuration n"
  by (simp add: perSlideDuration_def)

lemma totalDuration_eq_final: "0 < n \<Longrightarrow> totalDuration n = finalDuration n"
  by (simp add: totalDuration_def finalDuration_def perSlideDuration_def)

lemma finalDuration_ge_min:
  assumes "0 < n"
  shows "MIN_VIDEO_DURATION_SECONDS \<le> finalDuration n"
proof -
  have "MIN_VIDEO_DURATION_SECONDS \<le> ceil_div MIN_VIDEO_DURATION_SECONDS n * n"
    using assms by (rule ceil_div_mult_ge)
  also have "\<dots> \<le> perSlideDuration n * n"
    by (simp add: perSlideDuration_def)
  finally show ?thesis by (simp add: finalDuration_def)
qed

text \<open>
  Claim C2, as amended. For every item count \<open>n \<ge> 1\<close> the per-slide duration is at least
  the fallback of 40 seconds, and the total is at least the minimum of 240 seconds, whether
  or not \<open>n * 40\<close> reaches 240. When \<open>n * 40 \<ge> 240\<close> the total is \<open>n * 40\<close>; when
  \<open>n * 40 < 240\<close> the total is \<open>n * ceil (240 / n)\<close>, which is not \<open>n * 40\<close>.
\<close>

theorem C2_duration_plan_bounds:
  assumes "1 \<le> n"
  shows "FALLBACK_SLIDE_DURATION \<le> perSlideDuration n
    \<and> (MIN_VIDEO_DURATION_SECONDS \<le> n * FALLBACK_SLIDE_DURATION \<longrightarrow>
          MIN_VIDEO_DURATION_SECONDS \<le> totalDuration n
          \<and> totalDuration n = n * FALLBACK_SLIDE_DURATION)
    \<and> (n * FALLBACK_SLIDE_DURATION < MIN_VIDEO_DURATION_SECONDS \<longrightarrow>
          totalDuration n = n * ceil_div MIN_VIDEO_DURATION_SECONDS n
          \<and> MIN_VIDEO_DURATION_SECONDS \<le> totalDuration n
          \<and> totalDuration n \<noteq> n * FALLBACK_SLIDE_DURATION)"
proof (intro conjI impI)
  show "FALLBACK_SLIDE_DURATION \<le> perSlideDuration n"
    by (rule perSlideDuration_ge_fallback)
next
  assume "MIN_VIDEO_DURATION_SECONDS \<le> n * FALLBACK_SLIDE_DURATION"
  show "MIN_VIDEO_DURATION_SECONDS \<le> totalDuration n"
    using assms finalDuration_ge_min [of n] totalDuration_eq_final [of n] by simp
next
  assume big: "MIN_VIDEO_DURATION_SECONDS \<le> n * FALLBACK_SLIDE_DURATION"
  have "ceil_div MIN_VIDEO_DURATION_SECONDS n * n < MIN_VIDEO_DURATION_SECONDS + n"
    using assms by (intro ceil_div_mult_less) simp
  also have "\<dots> \<le> (FALLBACK_SLIDE_DURATION + 1) * n"
    using big by (simp add: algebra_simps)
  finally have "ceil_div MIN_VIDEO_DURATION_SECONDS n < FALLBACK_SLIDE_DURATION + 1"
    by (simp only: mult_less_cancel2)
  then have "perSlideDuration n = FALLBACK_SLIDE_DURATION"
    by (simp add: perSlideDuration_def)
  then show "totalDuration n = n * FALLBACK_SLIDE_DURATION"
    using assms by (simp add: totalDuration_eq_final finalDuration_def)
next
  assume small: "n * FALLBACK_SLIDE_DURATION < MIN_VIDEO_DURATION_SECONDS"
  have "MIN_VIDEO_DURATION_SECONDS \<le> ceil_div MIN_VIDEO_DURATION_SECONDS n * n"
    using assms by (intro ceil_div_mult_ge) simp
  moreover from small have "FALLBACK_SLIDE_DURATION * n < MIN_VIDEO_DURATION_SECONDS"
    by (simp only: mult.commute [of FALLBACK_SLIDE_DURATION n])
  ultimately have "FALLBACK_SLIDE_DURATION * n < ceil_div MIN_VIDEO_DURATION_SECONDS n * n"
    by (rule less_le_trans [rotated])
  then have lt: "FALLBACK_SLIDE_DURATION < ceil_div MIN_VIDEO_DURATION_SECONDS n"
    by (simp only: mult_less_cancel2)
  then have "perSlideDuration n = ceil_div MIN_VIDEO_DURATION_SECONDS n"
    by (simp add: perSlideDuration_def)
  then show eq: "totalDuration n = n * ceil_div MIN_VIDEO_DURATION_SECONDS n"
    using assms by (simp add: totalDuration_eq_final finalDuration_def)
  show "MIN_VIDEO_DURATION_SECONDS \<le> totalDuration n"
    using assms finalDuration_ge_min [of n] totalDuration_eq_final [of n] by simp
  show "totalDuration n \<noteq> n * FALLBACK_SLIDE_DURATION"
    using eq lt assms by simp
qed

theorem C2_duration_plan_bounds_witness:
  "(1::nat) \<le> 5
   \<and> FALLBACK_SLIDE_DURATION \<le> perSlideDuration 5
   \<and> 5 * FALLBACK_SLIDE_DURATION < MIN_VIDEO_DURATION_SECONDS
   \<and> totalDuration 5 = 5 * ceil_div MIN_VIDEO_DURATION_SECONDS 5
   \<and> totalDuration 5 = 240
   \<and> MIN_VIDEO_DURATION_SECONDS \<le> totalDuration 5"
  using C2_duration_plan_bounds [of 5]
  by (simp add: totalDuration_def perSlideDuration_def ceil_div_def
      MIN_VIDEO_DURATION_SECONDS_def FALLBACK_SLIDE_DURATION_def)

text \<open>
  Claim C2 as stated fails in its last clause: with one item, \<open>1 * 40 < 240\<close>, and the
  total is 240 seconds (one slide of \<open>ceil (240 / 1)\<close> seconds), not \<open>1 * 40 = 40\<close>.
\<close>

theorem C2_short_list_counterexample:
  "1 * FALLBACK_SLIDE_DURATION < MIN_VIDEO_DURATION_SECONDS
   \<and> perSlideDuration 1 = 240
   \<and> totalDuration 1 = 240
   \<and> totalDuration 1 \<noteq> 1 * FALLBACK_SLIDE_DURATION"
  by (simp add: totalDuration_def perSlideDuration_def ceil_div_def
      MIN_VIDEO_DURATION_SECONDS_def FALLBACK_SLIDE_DURATION_def)

text \<open>
  Claim C4. For every item count from 1 to 50, the per-slide duration is
  \<open>max (ceil (240 / n)) 40\<close>, its product with the item count is the total duration (both the
  memoised total and the one computed by the generation handler), and it is at least the
  fallback of 40 seconds.
\<close>

theorem C4_plan_product:
  assumes "1 \<le> n" and "n \<le> 50"
  shows "int (perSlideDuration n) = max \<lceil>240 / real n\<rceil> 40
    \<and> perSlideDuration n * n = totalDuration n
    \<and> perSlideDuration n * n = finalDuration n
    \<and> FALLBACK_SLIDE_DURATION \<le> perSlideDuration n
    \<and> FALLBACK_SLIDE_DURATION = 40"
proof -
  have "\<lceil>real MIN_VIDEO_DURATION_SECONDS / real n\<rceil> = int (ceil_div MIN_VIDEO_DURATION_SECONDS n)"
    using assms by (intro ceil_div_is_ceiling) simp
  then have "int (perSlideDuration n) = max \<lceil>240 / real n\<rceil> 40"
    by (simp add: perSlideDuration_def MIN_VIDEO_DURATION_SECONDS_def
        FALLBACK_SLIDE_DURATION_def)
  moreover have "perSlideDuration n * n = totalDuration n"
    using assms by (simp add: totalDuration_eq_final finalDuration_def)
  moreover have "perSlideDuration n * n = finalDuration n"
    by (simp add: finalDuration_def)
  ultimately show ?thesis
    using perSlideDuration_ge_fallback [of n] by (simp add: FALLBACK_SLIDE_DURATION_def)
qed

theorem C4_plan_product_witness:
  "(1::nat) \<le> 7 \<and> (7::nat) \<le> 50
   \<and> perSlideDuration 7 = 40
   \<and> perSlideDuration 7 * 7 = totalDuration 7
   \<and> totalDuration 7 = 280
   \<and> FALLBACK_SLIDE_DURATION \<le> perSlideDuration 7"
  using C4_plan_product [of 7]
  by (simp add: totalDuration_def perSlideDuration_def ceil_div_def
      MIN_VIDEO_DURATION_SECONDS_def FALLBACK_SLIDE_DURATION_def)

section \<open>Properties of the manifest builder\<close>

lemma array_join_snoc:
  "xs \<noteq> [] \<Longrightarrow> array_join sep (xs @ [y]) = array_join sep xs @ sep @ y"
  by (induction sep xs rule: array_join.induct) auto

lemma array_join_pairs:
  "array_join [NL] (map (\<lambda>name. render_directive (File name) @ [NL] @ render_directive (Duration d)) names)
   = array_join [NL] (map render_directive (concat (map (\<lambda>name. [File name, Duration d]) names)))"
proof (induction names)
  case Nil
  show ?case by simp
next
  case (Cons n ns)
  show ?case
  proof (cases ns)
    case Nil
    then show ?thesis by simp
  next
    case (Cons m ms)
    with Cons.IH show ?thesis by simp
  qed
qed

lemma buildConcatScript_directives:
  assumes "names \<noteq> []"
  shows "buildConcatScript names d
         = array_join [NL] (map render_directive (manifest_directives names d))"
proof -
  have ne: "map render_directive (concat (map (\<lambda>name. [File name, Duration d]) names)) \<noteq> []"
    using assms by (cases names) simp_all
  have "buildConcatScript names d
        = array_join [NL] (map (\<lambda>name. render_directive (File name) @ [NL]
                                    @ render_directive (Duration d)) names)
          @ [NL] @ render_directive (File (last names))"
    using assms by (simp add: buildConcatScript_def)
  also have "\<dots> = array_join [NL]
                      (map render_directive (concat (map (\<lambda>name. [File name, Duration d]) names)))
                    @ [NL] @ render_directive (File (last names))"
    by (simp only: array_join_pairs)
  also have "\<dots> = array_join [NL]
                      (map render_directive (concat (map (\<lambda>name. [File name, Duration d]) names))
                       @ [render_directive (File (last names))])"
    by (simp only: array_join_snoc [OF ne])
  finally show ?thesis
    by (simp add: manifest_directives_def)
qed

lemma split_lines_acc_no_newline:
  "NL \<notin> set l \<Longrightarrow> split_lines_acc cur (l @ rest) = split_lines_acc (cur @ l) rest"
  by (induction l arbitrary: cur) auto

lemma split_lines_acc_line:
  assumes "NL \<notin> set l"
  shows "split_lines_acc [] (l @ NL # rest) = l # split_lines_acc [] rest"
  using split_lines_acc_no_newline [OF assms, of "[]" "NL # rest"] by simp

lemma split_lines_acc_last:
  assumes "NL \<notin> set l"
  shows "split_lines_acc [] l = [l]"
  using split_lines_acc_no_newline [OF assms, of "[]" "[]"] by simp

lemma split_lines_array_join:
  assumes "ls \<noteq> []" and "\<forall>l\<in>set ls. NL \<notin> set l"
  shows "split_lines (array_join [NL] ls) = ls"
  using assms unfolding split_lines_def
proof (induction "[NL]" ls rule: array_join.induct)
  case 1
  then show ?case by simp
next
  case (2 x)
  then show ?case by (simp add: split_lines_acc_last)
next
  case (3 x y ys)
  then show ?case by (simp add: split_lines_acc_line)
qed

lemma Number_toString_digits: "set (Number_toString n) \<subseteq> digit_char ` {..<10}"
proof (induction n rule: Number_toString.induct)
  case (1 n)
  show ?case
  proof (cases "n < 10")
    case True
    then show ?thesis by (subst Number_toString.simps) simp
  next
    case False
    then have "set (Number_toString (n div 10)) \<subseteq> digit_char ` {..<10}"
      by (rule "1.IH")
    moreover have "digit_char (n mod 10) \<in> digit_char ` {..<10}"
      by simp
    ultimately show ?thesis
      using False by (subst Number_toString.simps) simp
  qed
qed

lemma digit_char_not_newline:
  assumes "k < 10"
  shows "digit_char k \<noteq> NL"
proof -
  from assms have "k \<in> {0, 1, 2, 3, 4, 5, 6, 7, 8, 9}"
    by auto
  then show ?thesis
    by (auto simp: digit_char_def NL_def)
qed

lemma Number_toString_no_newline: "NL \<notin> set (Number_toString n)"
proof
  assume "NL \<in> set (Number_toString n)"
  with Number_toString_digits [of n] obtain k where "k < 10" and "NL = digit_char k"
    by auto
  with digit_char_not_newline [of k] show False
    by simp
qed

lemma literal_no_newline:
  "NL \<notin> set (ascii ''file '')" "NL \<notin> set (ascii ''duration '')" "APOS \<noteq> NL"
  by (simp_all add: ascii_def NL_def APOS_def)

lemma render_directive_no_newline:
  "NL \<notin> set (render_directive (Duration d))"
  "NL \<notin> set name \<Longrightarrow> NL \<notin> set (render_directive (File name))"
  using literal_no_newline by (simp_all add: Number_toString_no_newline)

lemma manifest_directives_no_newline:
  assumes "names \<noteq> []" and "\<forall>n\<in>set names. NL \<notin> set n"
  shows "\<forall>l\<in>set (map render_directive (manifest_directives names d)). NL \<notin> set l"
proof -
  have "NL \<notin> set (render_directive x)" if "x \<in> set (manifest_directives names d)" for x
  proof -
    from that assms(1) have "x = Duration d \<or> (\<exists>n\<in>set names. x = File n)"
      by (auto simp: manifest_directives_def)
    with assms(2) show ?thesis
      by (auto simp: render_directive_no_newline simp del: render_directive.simps)
  qed
  then show ?thesis by simp
qed

lemma is_file_line_render [simp]:
  "is_file_line (render_directive (File name))"
  "\<not> is_file_line (render_directive (Duration d))"
  by (simp_all add: is_file_line_def ascii_def)

lemma is_duration_line_render [simp]:
  "is_duration_line (render_directive (Duration d))"
  "\<not> is_duration_line (render_directive (File name))"
  by (simp_all add: is_duration_line_def ascii_def)

lemma count_file_lines:
  "length (filter is_file_line
     (map render_directive (concat (map (\<lambda>name. [File name, Duration d]) names)))) = length names"
  by (induction names) (simp_all del: render_directive.simps)

lemma count_duration_lines:
  "length (filter is_duration_line
     (map render_directive (concat (map (\<lambda>name. [File name, Duration d]) names)))) = length names"
  by (induction names) (simp_all del: render_directive.simps)

text \<open>
  Claim C1, as amended. For every non-empty list of slide names and every per-slide
  duration, the text built is the newline-joined rendering of: for each slide in input
  order a \<open>file\<close> directive and a \<open>duration\<close> directive with the per-slide seconds, then
  one trailing \<open>file\<close> directive that repeats the last slide and has no duration. When no
  name holds a newline these directives are exactly the lines of the text. There is one
  \<open>file\<close> line more than there are slides, and one \<open>duration\<close> line per slide: for
  slides \<open>[s0, s1, s2]\<close> and duration 40 the text is
  \<open>file s0 / duration 40 / file s1 / duration 40 / file s2 / duration 40 / file s2\<close>,
  with four \<open>file\<close> lines and three \<open>duration\<close> lines, the last slide named twice.
\<close>

theorem C1_manifest_structure:
  assumes "names \<noteq> []"
  shows "buildConcatScript names d
           = array_join [NL] (map render_directive (manifest_directives names d))
    \<and> ((\<forall>n\<in>set names. NL \<notin> set n) \<longrightarrow>
          split_lines (buildConcatScript names d)
            = map render_directive (manifest_directives names d))
    \<and> length (filter is_file_line (map render_directive (manifest_directives names d)))
          = length names + 1
    \<and> length (filter is_duration_line (map render_directive (manifest_directives names d)))
          = length names
    \<and> buildConcatScript [s0, s1, s2] 40
          = array_join [NL] (map render_directive
              [File s0, Duration 40, File s1, Duration 40, File s2, Duration 40, File s2])"
proof (intro conjI impI)
  show eq: "buildConcatScript names d
             = array_join [NL] (map render_directive (manifest_directives names d))"
    using assms by (rule buildConcatScript_directives)
  show "length (filter is_file_line (map render_directive (manifest_directives names d)))
          = length names + 1"
    using count_file_lines [of d names]
    by (simp add: manifest_directives_def del: render_directive.simps)
  show "length (filter is_duration_line (map render_directive (manifest_directives names d)))
          = length names"
    using count_duration_lines [of d names]
    by (simp add: manifest_directives_def del: render_directive.simps)
  have "buildConcatScript [s0, s1, s2] 40
          = array_join [NL] (map render_directive (manifest_directives [s0, s1, s2] 40))"
    by (rule buildConcatScript_directives) simp
  then show "buildConcatScript [s0, s1, s2] 40
          = array_join [NL] (map render_directive
              [File s0, Duration 40, File s1, Duration 40, File s2, Duration 40, File s2])"
    by (simp add: manifest_directives_def)
next
  assume clean: "\<forall>n\<in>set names. NL \<notin> set n"
  have "map render_directive (manifest_directives names d) \<noteq> []"
    by (simp add: manifest_directives_def)
  moreover have "\<forall>l\<in>set (map render_directive (manifest_directives names d)). NL \<notin> set l"
    using assms clean by (rule manifest_directives_no_newline)
  ultimately have "split_lines (array_join [NL] (map render_directive (manifest_directives names d)))
                    = map render_directive (manifest_directives names d)"
    by (rule split_lines_array_join)
  then show "split_lines (buildConcatScript names d)
              = map render_directive (manifest_directives names d)"
    by (simp only: buildConcatScript_directives [OF assms])
qed

theorem C1_manifest_structure_witness:
  "[ascii ''slide-0.png'', ascii ''slide-1.png'', ascii ''slide-2.png''] \<noteq> []
   \<and> NL \<notin> set (ascii ''slide-0.png'')
   \<and> NL \<notin> set (ascii ''slide-1.png'')
   \<and> NL \<notin> set (ascii ''slide-2.png'')
   \<and> split_lines (buildConcatScript
         [ascii ''slide-0.png'', ascii ''slide-1.png'', ascii ''slide-2.png''] 40)
       = [ascii ''file '' @ [APOS] @ ascii ''slide-0.png'' @ [APOS], ascii ''duration 40'',
          ascii ''file '' @ [APOS] @ ascii ''slide-1.png'' @ [APOS], ascii ''duration 40'',
          ascii ''file '' @ [APOS] @ ascii ''slide-2.png'' @ [APOS], ascii ''duration 40'',
          ascii ''file '' @ [APOS] @ ascii ''slide-2.png'' @ [APOS]]"
proof -
  let ?names = "[ascii ''slide-0.png'', ascii ''slide-1.png'', ascii ''slide-2.png'']"
  have ne: "?names \<noteq> []"
    by simp
  have clean: "\<forall>n\<in>set ?names. NL \<notin> set n"
    by (simp add: ascii_def NL_def)
  from C1_manifest_structure [OF ne, where d = 40] clean
  have "split_lines (buildConcatScript ?names 40)
          = map render_directive (manifest_directives ?names 40)"
    by blast
  then show ?thesis
    by (simp add: manifest_directives_def ascii_def NL_def APOS_def Number_toString.simps
        digit_char_def)
qed

text \<open>
  Claim C1 as stated counts five \<open>file\<close> lines for three slides. The text built for
  \<open>slide-0.png\<close>, \<open>slide-1.png\<close>, \<open>slide-2.png\<close> and duration 40 has seven lines: four
  \<open>file\<close> lines (three slides and the repeated last one) and three \<open>duration\<close> lines.
\<close>

theorem C1_file_line_count_counterexample:
  "length (split_lines (buildConcatScript
       [ascii ''slide-0.png'', ascii ''slide-1.png'', ascii ''slide-2.png''] 40)) = 7
   \<and> length (filter is_file_line (split_lines (buildConcatScript
       [ascii ''slide-0.png'', ascii ''slide-1.png'', ascii ''slide-2.png''] 40))) = 4
   \<and> length (filter is_file_line (split_lines (buildConcatScript
       [ascii ''slide-0.png'', ascii ''slide-1.png'', ascii ''slide-2.png''] 40))) \<noteq> 5
   \<and> length (filter is_duration_line (split_lines (buildConcatScript
       [ascii ''slide-0.png'', ascii ''slide-1.png'', ascii ''slide-2.png''] 40))) = 3"
  by (simp add: buildConcatScript_def split_lines_def is_file_line_def is_duration_line_def
      ascii_def Number_toString.simps digit_char_def NL_def APOS_def)

section \<open>Properties of the content normalizer\<close>

lemma filter_chain_survivors:
  "filter (\<lambda>post. \<not> p_stickied post \<and> \<not> p_over_18 post) (map the (filter has_id children))
   = survivors children"
proof (induction children)
  case Nil
  show ?case by (simp add: survivors_def)
next
  case (Cons c cs)
  then show ?case
    by (cases c) (auto simp: survivors_def eligible_def has_id_def is_pinned_def is_adult_def)
qed

lemma those_toUpdate_valid:
  "\<forall>post\<in>set ps. Date_valid (p_created_utc post * 1000) \<Longrightarrow>
   those (map toUpdate ps) = Some (map update_of ps)"
  by (induction ps) (simp_all add: toUpdate_def)

lemma those_toUpdate_Some:
  "those (map toUpdate ps) = Some items \<Longrightarrow> items = map update_of ps"
  by (induction ps arbitrary: items) (auto simp: toUpdate_def split: if_splits option.splits)

lemma normalizeItems_survivors:
  "normalizeItems (Some children)
   = those (map toUpdate (take ITEMS_LIMIT (survivors children)))"
  by (simp add: normalizeItems_def filter_chain_survivors)

lemma normalizeItems_Some:
  assumes "normalizeItems payload = Some items"
  shows "\<exists>ps. items = map update_of ps"
proof -
  from assms obtain ps where "those (map toUpdate ps) = Some items"
    by (auto simp: normalizeItems_def Let_def)
  then have "items = map update_of ps"
    by (rule those_toUpdate_Some)
  then show ?thesis ..
qed

lemma GET_ItemsResponse:
  assumes "GET outcome = ItemsResponse items"
  shows "\<exists>status payload. outcome = FetchResponse True status (Some payload)
           \<and> normalizeItems payload = Some items"
  using assms
  by (auto simp: GET_def split: fetch_outcome.splits if_splits option.splits)

text \<open>The identifier of a raw child, when it has one.\<close>

lemma survivor_ids_subseq:
  "subseq (map (\<lambda>post. p_id post) (survivors children))
          (map (\<lambda>child. case child of None \<Rightarrow> None | Some post \<Rightarrow> p_id post) children)"
proof (induction children)
  case Nil
  show ?case by (simp add: survivors_def)
next
  case (Cons c cs)
  show ?case
  proof (cases "eligible c")
    case True
    then obtain post where "c = Some post"
      by (cases c) (auto simp: eligible_def has_id_def)
    with True Cons.IH show ?thesis
      by (simp add: survivors_def)
  next
    case False
    with Cons.IH show ?thesis
      by (simp add: survivors_def list_emb_Cons)
  qed
qed

lemma survivors_have_id:
  "post \<in> set (survivors children) \<Longrightarrow> p_id post = Some (the (p_id post))"
  by (auto simp: survivors_def eligible_def has_id_def split: option.splits)

lemma length_filter_disjoint:
  "\<forall>x\<in>set xs. \<not> (P x \<and> Q x) \<Longrightarrow>
   length (filter (\<lambda>x. \<not> P x \<and> \<not> Q x) xs) + length (filter P xs) + length (filter Q xs)
   = length xs"
  by (induction xs) auto

lemma eligible_count:
  assumes "\<forall>c\<in>set children. has_id c"
    and "\<forall>c\<in>set children. \<not> (is_pinned c \<and> is_adult c)"
  shows "length (filter eligible children) + length (filter is_pinned children)
         + length (filter is_adult children) = length children"
proof -
  have "filter eligible children = filter (\<lambda>c. \<not> is_pinned c \<and> \<not> is_adult c) children"
    using assms(1) by (intro filter_cong) (auto simp: eligible_def)
  then show ?thesis
    using length_filter_disjoint [OF assms(2)] by simp
qed

lemma sample_post_simps:
  "has_id (sample_post i body pinned adult) \<longleftrightarrow> i \<noteq> []"
  "is_pinned (sample_post i body pinned adult) = pinned"
  "is_adult (sample_post i body pinned adult) = adult"
  "eligible (sample_post i body pinned adult) \<longleftrightarrow> i \<noteq> [] \<and> \<not> pinned \<and> \<not> adult"
  "p_id (the (sample_post i body pinned adult)) = Some (ascii i)"
  "p_selftext (the (sample_post i body pinned adult)) = body"
  "p_stickied (the (sample_post i body pinned adult)) = pinned"
  "p_over_18 (the (sample_post i body pinned adult)) = adult"
  "p_created_utc (the (sample_post i body pinned adult)) = 1700000000"
  by (simp_all add: sample_post_def eligible_def has_id_def is_pinned_def is_adult_def ascii_def)

text \<open>
  Claim C7. When the feed answers successfully with a list of records (whose surviving
  timestamps are dates), the route returns the items built from the eligible records (those
  with an identifier that are neither pinned nor adult), in feed order, cut to the first
  \<open>ITEMS_LIMIT = 10\<close> survivors: the identifiers returned are a subsequence of the feed's.
  In particular 12 records that all have identifiers, 2 of them pinned and another one adult,
  give 9 items.
\<close>

theorem C7_normalizer_filters_in_order:
  assumes valid: "\<forall>post\<in>set (take ITEMS_LIMIT (survivors children)).
                    Date_valid (p_created_utc post * 1000)"
  shows "\<exists>items.
      GET (FetchResponse True status (Some (Some children))) = ItemsResponse items
    \<and> items = map update_of (take ITEMS_LIMIT (survivors children))
    \<and> map u_id items = take ITEMS_LIMIT (map (\<lambda>post. the (p_id post)) (survivors children))
    \<and> length items = min ITEMS_LIMIT (length (filter eligible children))
    \<and> ITEMS_LIMIT = 10
    \<and> subseq (map (\<lambda>it. Some (u_id it)) items)
         (map (\<lambda>child. case child of None \<Rightarrow> None | Some post \<Rightarrow> p_id post) children)
    \<and> (length children = 12 \<and> (\<forall>c\<in>set children. has_id c)
         \<and> length (filter is_pinned children) = 2 \<and> length (filter is_adult children) = 1
         \<and> (\<forall>c\<in>set children. \<not> (is_pinned c \<and> is_adult c))
        \<longrightarrow> length items = 9)"
proof -
  define bounded where "bounded = take ITEMS_LIMIT (survivors children)"
  define items where "items = map update_of bounded"
  have norm: "normalizeItems (Some children) = Some items"
    using valid unfolding items_def bounded_def
    by (simp only: normalizeItems_survivors those_toUpdate_valid)
  then have get: "GET (FetchResponse True status (Some (Some children))) = ItemsResponse items"
    by (simp add: GET_def)
  have ids: "map u_id items = take ITEMS_LIMIT (map (\<lambda>post. the (p_id post)) (survivors children))"
    by (simp add: items_def bounded_def update_of_def take_map)
  have len: "length items = min ITEMS_LIMIT (length (filter eligible children))"
    by (simp add: items_def bounded_def survivors_def min.commute)
  have "map (\<lambda>it. Some (u_id it)) items = map (\<lambda>post. p_id post) bounded"
  proof -
    have "Some (u_id (update_of post)) = p_id post" if "post \<in> set bounded" for post
    proof -
      from that have "post \<in> set (survivors children)"
        unfolding bounded_def by (rule in_set_takeD)
      then show ?thesis
        using survivors_have_id [of post children] by (simp add: update_of_def)
    qed
    then show ?thesis
      by (simp add: items_def)
  qed
  moreover have "subseq (map (\<lambda>post. p_id post) bounded)
                        (map (\<lambda>post. p_id post) (survivors children))"
    unfolding bounded_def by (intro subseq_map sublist_imp_subseq sublist_take)
  ultimately have sub: "subseq (map (\<lambda>it. Some (u_id it)) items)
         (map (\<lambda>child. case child of None \<Rightarrow> None | Some post \<Rightarrow> p_id post) children)"
    using survivor_ids_subseq [of children] by (simp only: subseq_order.trans)
  have nine: "length items = 9"
    if "length children = 12 \<and> (\<forall>c\<in>set children. has_id c)
         \<and> length (filter is_pinned children) = 2 \<and> length (filter is_adult children) = 1
         \<and> (\<forall>c\<in>set children. \<not> (is_pinned c \<and> is_adult c))"
  proof -
    from that eligible_count [of children] have "length (filter eligible children) = 9"
      by simp
    with len show ?thesis
      by (simp add: ITEMS_LIMIT_def)
  qed
  from get ids len sub nine show ?thesis
    unfolding items_def bounded_def by (simp add: ITEMS_LIMIT_def)
qed

theorem C7_normalizer_filters_in_order_witness:
  "length sample_feed = 12
   \<and> length (filter has_id sample_feed) = 12
   \<and> length (filter is_pinned sample_feed) = 2
   \<and> length (filter is_adult sample_feed) = 1
   \<and> length (filter (\<lambda>c. is_pinned c \<and> is_adult c) sample_feed) = 0
   \<and> (\<exists>items. GET (FetchResponse True 200 (Some (Some sample_feed))) = ItemsResponse items
         \<and> length items = 9
         \<and> map u_id items = [ascii ''a'', ascii ''b'', ascii ''d'', ascii ''e'', ascii ''g'',
                              ascii ''h'', ascii ''j'', ascii ''k'', ascii ''l''])"
proof -
  have valid: "\<forall>post\<in>set (take ITEMS_LIMIT (survivors sample_feed)).
                 Date_valid (p_created_utc post * 1000)"
    by (simp add: survivors_def sample_feed_def sample_post_simps Date_valid_def ITEMS_LIMIT_def)
  have shape: "length sample_feed = 12 \<and> (\<forall>c\<in>set sample_feed. has_id c)
      \<and> length (filter is_pinned sample_feed) = 2 \<and> length (filter is_adult sample_feed) = 1
      \<and> (\<forall>c\<in>set sample_feed. \<not> (is_pinned c \<and> is_adult c))"
    by (simp add: sample_feed_def sample_post_simps)
  from C7_normalizer_filters_in_order [OF valid, of 200] shape
  obtain items where get: "GET (FetchResponse True 200 (Some (Some sample_feed))) = ItemsResponse items"
    and ids: "map u_id items
              = take ITEMS_LIMIT (map (\<lambda>post. the (p_id post)) (survivors sample_feed))"
    and nine: "length items = 9"
    by blast
  from ids have "map u_id items = [ascii ''a'', ascii ''b'', ascii ''d'', ascii ''e'', ascii ''g'',
                              ascii ''h'', ascii ''j'', ascii ''k'', ascii ''l'']"
    by (simp add: survivors_def sample_feed_def sample_post_simps ITEMS_LIMIT_def)
  with get nine have "\<exists>items. GET (FetchResponse True 200 (Some (Some sample_feed))) = ItemsResponse items
         \<and> length items = 9
         \<and> map u_id items = [ascii ''a'', ascii ''b'', ascii ''d'', ascii ''e'', ascii ''g'',
                              ascii ''h'', ascii ''j'', ascii ''k'', ascii ''l'']"
    by (intro exI [of _ items] conjI)
  moreover have "length sample_feed = 12
   \<and> length (filter has_id sample_feed) = 12
   \<and> length (filter is_pinned sample_feed) = 2
   \<and> length (filter is_adult sample_feed) = 1
   \<and> length (filter (\<lambda>c. is_pinned c \<and> is_adult c) sample_feed) = 0"
    by (simp add: sample_feed_def sample_post_simps)
  ultimately show ?thesis
    by (intro conjI) simp_all
qed

lemma update_of_summary_cap:
  "length (u_summary (update_of post)) \<le> 600"
  "600 < length (summary post) \<Longrightarrow>
     u_summary (update_of post) = take 597 (summary post) @ ascii ''...''
     \<and> length (u_summary (update_of post)) = 600"
  "length (summary post) \<le> 600 \<Longrightarrow> u_summary (update_of post) = summary post"
  by (simp_all add: update_of_def ascii_def)

lemma normalizeItems_records:
  assumes "normalizeItems payload = Some items"
  shows "items = map update_of
           (take ITEMS_LIMIT (survivors (case payload of None \<Rightarrow> [] | Some children \<Rightarrow> children)))"
proof -
  have "normalizeItems payload
        = those (map toUpdate
            (take ITEMS_LIMIT (survivors (case payload of None \<Rightarrow> [] | Some children \<Rightarrow> children))))"
    by (simp add: normalizeItems_def filter_chain_survivors)
  with assms show ?thesis
    by (simp add: those_toUpdate_Some)
qed

text \<open>
  Claim C8. The items that the route returns are built, in order, from the first ten
  surviving records of the feed, and the summary of every item has at most 600 code units.
  When the text derived for the item's own record (its trimmed body, or the fallback
  sentence) is longer than 600, the summary is the first 597 code units of that text
  followed by the three-period marker, 600 in all; otherwise the summary is the derived
  text itself.
\<close>

theorem C8_summary_cap:
  assumes "GET outcome = ItemsResponse items"
  shows "\<exists>status payload posts.
      outcome = FetchResponse True status (Some payload)
    \<and> posts = take ITEMS_LIMIT (survivors (case payload of None \<Rightarrow> [] | Some children \<Rightarrow> children))
    \<and> length items = length posts
    \<and> (\<forall>i<length items.
          u_id (items ! i) = the (p_id (posts ! i))
        \<and> length (u_summary (items ! i)) \<le> 600
        \<and> (600 < length (summary (posts ! i)) \<longrightarrow>
              u_summary (items ! i) = take 597 (summary (posts ! i)) @ ascii ''...''
            \<and> length (u_summary (items ! i)) = 600
            \<and> suffix (ascii ''...'') (u_summary (items ! i)))
        \<and> (length (summary (posts ! i)) \<le> 600 \<longrightarrow>
              u_summary (items ! i) = summary (posts ! i)))"
proof -
  from assms obtain status payload where out: "outcome = FetchResponse True status (Some payload)"
    and norm: "normalizeItems payload = Some items"
    using GET_ItemsResponse by blast
  define posts where
    "posts = take ITEMS_LIMIT (survivors (case payload of None \<Rightarrow> [] | Some children \<Rightarrow> children))"
  from norm have items: "items = map update_of posts"
    unfolding posts_def by (rule normalizeItems_records)
  then have len: "length items = length posts"
    by simp
  have each: "u_id (items ! i) = the (p_id (posts ! i))
        \<and> length (u_summary (items ! i)) \<le> 600
        \<and> (600 < length (summary (posts ! i)) \<longrightarrow>
              u_summary (items ! i) = take 597 (summary (posts ! i)) @ ascii ''...''
            \<and> length (u_summary (items ! i)) = 600
            \<and> suffix (ascii ''...'') (u_summary (items ! i)))
        \<and> (length (summary (posts ! i)) \<le> 600 \<longrightarrow>
              u_summary (items ! i) = summary (posts ! i))" if "i < length items" for i
  proof -
    from that len have it: "items ! i = update_of (posts ! i)"
      by (simp add: items)
    have "u_id (items ! i) = the (p_id (posts ! i))"
      unfolding it by (simp add: update_of_def)
    moreover have "length (u_summary (items ! i)) \<le> 600"
      unfolding it by (rule update_of_summary_cap)
    moreover have "u_summary (items ! i) = take 597 (summary (posts ! i)) @ ascii ''...''
            \<and> length (u_summary (items ! i)) = 600
            \<and> suffix (ascii ''...'') (u_summary (items ! i))"
      if "600 < length (summary (posts ! i))"
    proof -
      from update_of_summary_cap(2) [OF that]
      have eq: "u_summary (items ! i) = take 597 (summary (posts ! i)) @ ascii ''...''"
        and l: "length (u_summary (items ! i)) = 600"
        unfolding it by blast+
      have "suffix (ascii ''...'') (u_summary (items ! i))"
        unfolding eq by (rule suffix_appendI) (rule suffix_order.refl)
      with eq l show ?thesis
        by blast
    qed
    moreover have "u_summary (items ! i) = summary (posts ! i)"
      if "length (summary (posts ! i)) \<le> 600"
      unfolding it using that by (rule update_of_summary_cap)
    ultimately show ?thesis
      by blast
  qed
  from out posts_def len each show ?thesis
    by blast
qed

lemma long_body_summary:
  "summary (the (sample_post ''a'' (replicate 700 0x61) False False)) = replicate 700 0x61"
  by (simp add: summary_def summarySource_def trim_def sample_post_simps is_js_whitespace_def)

theorem C8_summary_cap_witness:
  "GET (FetchResponse True 200 (Some (Some [sample_post ''a'' (replicate 700 0x61) False False])))
     = ItemsResponse [update_of (the (sample_post ''a'' (replicate 700 0x61) False False))]
   \<and> length (summary (the (sample_post ''a'' (replicate 700 0x61) False False))) = 700
   \<and> length (u_summary (update_of (the (sample_post ''a'' (replicate 700 0x61) False False))))
       = 600
   \<and> u_summary (update_of (the (sample_post ''a'' (replicate 700 0x61) False False)))
       = replicate 597 0x61 @ ascii ''...''"
proof -
  let ?post = "the (sample_post ''a'' (replicate 700 0x61) False False)"
  let ?feed = "[sample_post ''a'' (replicate 700 0x61) False False]"
  have get: "GET (FetchResponse True 200 (Some (Some ?feed))) = ItemsResponse [update_of ?post]"
    by (simp add: GET_def normalizeItems_survivors survivors_def toUpdate_def Date_valid_def
        ITEMS_LIMIT_def sample_post_simps)
  have posts: "take ITEMS_LIMIT (survivors ?feed) = [?post]"
    by (simp add: survivors_def ITEMS_LIMIT_def sample_post_simps)
  have long: "summary ?post = replicate 700 0x61"
    by (rule long_body_summary)
  from C8_summary_cap [OF get] obtain status payload posts where
    out: "FetchResponse True 200 (Some (Some ?feed)) = FetchResponse True status (Some payload)"
    and ps: "posts = take ITEMS_LIMIT
                       (survivors (case payload of None \<Rightarrow> [] | Some children \<Rightarrow> children))"
    and each: "\<forall>i<length [update_of ?post].
          u_id ([update_of ?post] ! i) = the (p_id (posts ! i))
        \<and> length (u_summary ([update_of ?post] ! i)) \<le> 600
        \<and> (600 < length (summary (posts ! i)) \<longrightarrow>
              u_summary ([update_of ?post] ! i) = take 597 (summary (posts ! i)) @ ascii ''...''
            \<and> length (u_summary ([update_of ?post] ! i)) = 600
            \<and> suffix (ascii ''...'') (u_summary ([update_of ?post] ! i)))
        \<and> (length (summary (posts ! i)) \<le> 600 \<longrightarrow>
              u_summary ([update_of ?post] ! i) = summary (posts ! i))"
    by blast
  from out have "payload = Some ?feed"
    by simp
  with ps posts have p: "posts = [?post]"
    by simp
  from each have "600 < length (summary (posts ! 0)) \<longrightarrow>
              u_summary (update_of ?post) = take 597 (summary (posts ! 0)) @ ascii ''...''
            \<and> length (u_summary (update_of ?post)) = 600"
    by (simp add: ascii_def)
  then have "u_summary (update_of ?post) = take 597 (summary ?post) @ ascii ''...''
            \<and> length (u_summary (update_of ?post)) = 600"
    unfolding p using long by (simp add: ascii_def)
  then show ?thesis
    using get long by (simp add: ascii_def)
qed

section \<open>Properties of the silent track generator\<close>

lemma le32_decode:
  fixes x :: nat
  shows "x mod 256 + 256 * (x div 256 mod 256) + 65536 * (x div 65536 mod 256)
         + 16777216 * (x div 16777216 mod 256) = x mod 4294967296"
proof -
  have d: "x div 256 div 256 = x div 65536"
    using div_mult2_eq [of x 256 256] by simp
  have e: "x div 65536 div 256 = x div 16777216"
    using div_mult2_eq [of x 65536 256] by simp
  have a: "x mod 4294967296 = 256 * (x div 256 mod 16777216) + x mod 256"
    using mod_mult2_eq [of x 256 16777216] by simp
  have b: "x div 256 mod 16777216 = 256 * (x div 65536 mod 65536) + x div 256 mod 256"
    using mod_mult2_eq [of "x div 256" 256 65536] by (simp add: d)
  have c: "x div 65536 mod 65536 = 256 * (x div 16777216 mod 256) + x div 65536 mod 256"
    using mod_mult2_eq [of "x div 65536" 256 256] by (simp add: e)
  show ?thesis
    by (simp add: a b c)
qed

lemma le16_decode:
  fixes x :: nat
  shows "x mod 256 + 256 * (x div 256 mod 256) = x mod 65536"
  using mod_mult2_eq [of x 256 256] by simp

lemma unat_byte_of_nat: "unat (of_nat n :: byte) = n mod 256"
  by (simp add: unat_of_nat)

lemma setUint8_append:
  "byteOffset + 1 \<le> length xs \<Longrightarrow>
   setUint8 (xs @ ys) byteOffset v = map_option (\<lambda>zs. zs @ ys) (setUint8 xs byteOffset v)"
  by (simp add: setUint8_def list_update_append1)

lemma setUint16_append:
  "byteOffset + 2 \<le> length xs \<Longrightarrow>
   setUint16 (xs @ ys) byteOffset v le = map_option (\<lambda>zs. zs @ ys) (setUint16 xs byteOffset v le)"
  by (simp add: setUint16_def list_update_append1)

lemma setUint32_append:
  "byteOffset + 4 \<le> length xs \<Longrightarrow>
   setUint32 (xs @ ys) byteOffset v le = map_option (\<lambda>zs. zs @ ys) (setUint32 xs byteOffset v le)"
  by (simp add: setUint32_def list_update_append1)

lemma setUint8_length: "setUint8 xs byteOffset v = Some zs \<Longrightarrow> length zs = length xs"
  by (auto simp: setUint8_def split: if_splits)

lemma writeString_append:
  "offset + length s \<le> length xs \<Longrightarrow>
   writeString (xs @ ys) offset s = map_option (\<lambda>zs. zs @ ys) (writeString xs offset s)"
proof (induction s arbitrary: xs offset)
  case Nil
  show ?case by simp
next
  case (Cons c cs)
  from Cons.prems have fits: "offset + 1 \<le> length xs"
    by simp
  then obtain zs where zs: "setUint8 xs offset (unat c) = Some zs"
    by (simp add: setUint8_def)
  then have "length zs = length xs"
    by (rule setUint8_length)
  with Cons.prems have "offset + 1 + length cs \<le> length zs"
    by simp
  then have "writeString (zs @ ys) (offset + 1) cs
             = map_option (\<lambda>zs. zs @ ys) (writeString zs (offset + 1) cs)"
    by (rule Cons.IH)
  then show ?case
    using zs fits by (simp add: setUint8_append)
qed

lemma zeros44:
  "replicate 44 (0::byte)
   = [0,0,0,0, 0,0,0,0, 0,0,0,0, 0,0,0,0, 0,0,0,0, 0,0,0,0, 0,0,0,0, 0,0,0,0,
      0,0,0,0, 0,0,0,0, 0,0,0,0]"
  by (simp add: numeral_eq_Suc)

lemma wav_block:
  "do {
        view \<leftarrow> writeString (replicate (44 + n) 0) 0 (ascii ''RIFF'');
        view \<leftarrow> setUint32 view 4 (36 + n) True;
        view \<leftarrow> writeString view 8 (ascii ''WAVE'');
        view \<leftarrow> writeString view 12 (ascii ''fmt '');
        view \<leftarrow> setUint32 view 16 16 True;
        view \<leftarrow> setUint16 view 20 1 True;
        view \<leftarrow> setUint16 view 22 1 True;
        view \<leftarrow> setUint32 view 24 44100 True;
        view \<leftarrow> setUint32 view 28 (44100 * 1 * 2) True;
        view \<leftarrow> setUint16 view 32 (1 * 2) True;
        view \<leftarrow> setUint16 view 34 (2 * 8) True;
        view \<leftarrow> writeString view 36 (ascii ''data'');
        view \<leftarrow> setUint32 view 40 n True;
        Some view
      } = Some (wav_header n @ replicate n 0)"
  unfolding replicate_add zeros44
  by (simp add: ascii_def setUint8_def setUint16_def setUint32_def wav_header_def)

lemma generateSilenceWav_granted:
  assumes "44 + d * 44100 * 2 \<le> MAX_SAFE_INTEGER" and "alloc (44 + d * 44100 * 2)"
  shows "generateSilenceWav alloc d
         = Some (wav_header (d * 44100 * 2) @ replicate (d * 44100 * 2) 0)"
proof -
  have buffer: "new_ArrayBuffer alloc (44 + d * 44100 * 2 * 1)
                = Some (replicate (44 + d * 44100 * 2 * 1) 0)"
    using assms by (simp add: new_ArrayBuffer_def)
  have "generateSilenceWav alloc d
        = Some (wav_header (d * 44100 * 2 * 1) @ replicate (d * 44100 * 2 * 1) 0)"
    unfolding generateSilenceWav_def Let_def buffer Option.bind_lunit by (rule wav_block)
  then show ?thesis
    by simp
qed

lemma generateSilenceWav_refused:
  assumes "\<not> (44 + d * 44100 * 2 \<le> MAX_SAFE_INTEGER \<and> alloc (44 + d * 44100 * 2))"
  shows "generateSilenceWav alloc d = None"
proof -
  have buffer: "new_ArrayBuffer alloc (44 + d * 44100 * 2 * 1) = None"
    using assms by (simp add: new_ArrayBuffer_def)
  show ?thesis
    unfolding generateSilenceWav_def Let_def buffer by simp
qed

lemma length_wav_header: "length (wav_header n) = 44"
  by (simp add: wav_header_def)

lemma wav_header_data_length:
  "data_length_field (wav_header n @ zs) = Some (n mod 4294967296)"
proof -
  have "data_length_field (wav_header n @ zs)
        = Some (n mod 256 + 256 * (n div 256 mod 256) + 65536 * (n div 65536 mod 256)
                + 16777216 * (n div 16777216 mod 256))"
    by (simp add: data_length_field_def getUint32_def wav_header_def unat_byte_of_nat)
  then show ?thesis
    by (simp only: le32_decode)
qed

lemma getUint32_at_4:
  "getUint32 (a0 # a1 # a2 # a3 # of_nat m # of_nat (m div 256) # of_nat (m div 65536)
              # of_nat (m div 16777216) # rest) 4 True
   = Some (m mod 4294967296)"
proof -
  have "getUint32 (a0 # a1 # a2 # a3 # of_nat m # of_nat (m div 256) # of_nat (m div 65536)
              # of_nat (m div 16777216) # rest) 4 True
        = Some (m mod 256 + 256 * (m div 256 mod 256) + 65536 * (m div 65536 mod 256)
                + 16777216 * (m div 16777216 mod 256))"
    by (simp add: getUint32_def unat_byte_of_nat)
  then show ?thesis
    by (simp only: le32_decode)
qed

lemma wav_header_riff_length:
  "riff_length_field (wav_header n @ zs) = Some ((36 + n) mod 4294967296)"
  unfolding riff_length_field_def wav_header_def append.simps
  by (rule getUint32_at_4)

lemma wav_header_format:
  "take 4 (wav_header n @ zs) = map (\<lambda>c. of_nat (unat c)) (ascii ''RIFF'')"
  "take 4 (drop 8 (wav_header n @ zs)) = map (\<lambda>c. of_nat (unat c)) (ascii ''WAVE'')"
  "getUint16 (wav_header n @ zs) 22 True = Some 1"
  "getUint32 (wav_header n @ zs) 24 True = Some 44100"
  "getUint16 (wav_header n @ zs) 34 True = Some 16"
  by (simp_all add: getUint16_def getUint32_def wav_header_def ascii_def)

text \<open>
  Claim C3, as amended. The generator asks the engine for a buffer of \<open>44 + d * 44100 * 2\<close>
  bytes. It throws a \<^verbatim>\<open>RangeError\<close> exactly when that length is above \<open>2^53 - 1\<close> or the
  engine does not allocate it. Otherwise it returns a buffer of exactly that length: a
  44-byte header (RIFF/WAVE, one channel, 44100 Hz, 16 bits) followed by exactly
  \<open>d * 44100 * 2\<close> zero bytes. The two little-endian length fields hold \<open>d * 44100 * 2\<close>
  and \<open>36 + d * 44100 * 2\<close> reduced modulo \<open>2^32\<close>; they equal the data length and the
  file length when \<open>d \<le> 48695\<close>, and neither does when \<open>d\<close> is larger.
\<close>

theorem C3_silence_wav_layout:
  "(generateSilenceWav alloc d = None
      \<longleftrightarrow> \<not> (44 + d * 44100 * 2 \<le> 2 ^ 53 - 1 \<and> alloc (44 + d * 44100 * 2)))
   \<and> (44 + d * 44100 * 2 \<le> 2 ^ 53 - 1 \<and> alloc (44 + d * 44100 * 2) \<longrightarrow>
        (\<exists>buf. generateSilenceWav alloc d = Some buf
           \<and> length buf = 44 + d * 44100 * 2
           \<and> drop 44 buf = replicate (d * 44100 * 2) 0
           \<and> take 4 buf = map (\<lambda>c. of_nat (unat c)) (ascii ''RIFF'')
           \<and> take 4 (drop 8 buf) = map (\<lambda>c. of_nat (unat c)) (ascii ''WAVE'')
           \<and> getUint16 buf 22 True = Some 1
           \<and> getUint32 buf 24 True = Some 44100
           \<and> getUint16 buf 34 True = Some 16
           \<and> data_length_field buf = Some ((d * 44100 * 2) mod 2 ^ 32)
           \<and> riff_length_field buf = Some ((36 + d * 44100 * 2) mod 2 ^ 32)
           \<and> (d \<le> 48695 \<longrightarrow>
                 data_length_field buf = Some (d * 44100 * 2)
               \<and> riff_length_field buf = Some (36 + d * 44100 * 2))
           \<and> (48695 < d \<longrightarrow>
                 data_length_field buf \<noteq> Some (d * 44100 * 2)
               \<and> riff_length_field buf \<noteq> Some (36 + d * 44100 * 2))))"
proof -
  define n where "n = d * 44100 * 2"
  define buf where "buf = wav_header n @ replicate n 0"
  define granted where "granted \<longleftrightarrow> 44 + n \<le> MAX_SAFE_INTEGER \<and> alloc (44 + n)"
  have refused: "generateSilenceWav alloc d = None" if "\<not> granted"
    using that unfolding granted_def n_def by (rule generateSilenceWav_refused)
  have gen: "generateSilenceWav alloc d = Some buf" if "granted"
    using that unfolding granted_def buf_def n_def by (simp add: generateSilenceWav_granted)
  have none_iff: "generateSilenceWav alloc d = None \<longleftrightarrow> \<not> granted"
    using refused gen by (cases granted) simp_all
  have len: "length buf = 44 + n"
    by (simp add: buf_def length_wav_header)
  have zeros: "drop 44 buf = replicate n 0"
    by (simp add: buf_def length_wav_header)
  have fmt: "take 4 buf = map (\<lambda>c. of_nat (unat c)) (ascii ''RIFF'')"
    "take 4 (drop 8 buf) = map (\<lambda>c. of_nat (unat c)) (ascii ''WAVE'')"
    "getUint16 buf 22 True = Some 1"
    "getUint32 buf 24 True = Some 44100"
    "getUint16 buf 34 True = Some 16"
    unfolding buf_def by (rule wav_header_format)+
  have data: "data_length_field buf = Some (n mod 2 ^ 32)"
    unfolding buf_def by (simp add: wav_header_data_length)
  have riff: "riff_length_field buf = Some ((36 + n) mod 2 ^ 32)"
    unfolding buf_def by (simp add: wav_header_riff_length)
  have exact: "data_length_field buf = Some n \<and> riff_length_field buf = Some (36 + n)"
    if "d \<le> 48695"
  proof -
    from that have "36 + n < 2 ^ 32"
      by (simp add: n_def)
    then have "n mod 2 ^ 32 = n" and "(36 + n) mod 2 ^ 32 = 36 + n"
      by simp_all
    with data riff show ?thesis
      by simp
  qed
  have wraps: "data_length_field buf \<noteq> Some n \<and> riff_length_field buf \<noteq> Some (36 + n)"
    if "48695 < d"
  proof -
    from that have "48696 * 88200 \<le> d * 88200"
      by simp
    then have big: "(2::nat) ^ 32 \<le> n"
      by (simp add: n_def)
    have "n mod 2 ^ 32 < 2 ^ 32" and "(36 + n) mod 2 ^ 32 < 2 ^ 32"
      by simp_all
    with big have "n mod 2 ^ 32 \<noteq> n" and "(36 + n) mod 2 ^ 32 \<noteq> 36 + n"
      by linarith+
    with data riff show ?thesis
      by simp
  qed
  have layout: "\<exists>buf. generateSilenceWav alloc d = Some buf
           \<and> length buf = 44 + n
           \<and> drop 44 buf = replicate n 0
           \<and> take 4 buf = map (\<lambda>c. of_nat (unat c)) (ascii ''RIFF'')
           \<and> take 4 (drop 8 buf) = map (\<lambda>c. of_nat (unat c)) (ascii ''WAVE'')
           \<and> getUint16 buf 22 True = Some 1
           \<and> getUint32 buf 24 True = Some 44100
           \<and> getUint16 buf 34 True = Some 16
           \<and> data_length_field buf = Some (n mod 2 ^ 32)
           \<and> riff_length_field buf = Some ((36 + n) mod 2 ^ 32)
           \<and> (d \<le> 48695 \<longrightarrow>
                 data_length_field buf = Some n \<and> riff_length_field buf = Some (36 + n))
           \<and> (48695 < d \<longrightarrow>
                 data_length_field buf \<noteq> Some n \<and> riff_length_field buf \<noteq> Some (36 + n))"
    if "granted"
    using gen [OF that] len zeros fmt data riff exact wraps by blast
  from none_iff layout show ?thesis
    unfolding granted_def n_def MAX_SAFE_INTEGER_def by blast
qed

theorem C3_silence_wav_layout_witness:
  "(44::nat) + 1 * 44100 * 2 \<le> 2 ^ 53 - 1 \<and> (1::nat) \<le> 48695
   \<and> map_option length (generateSilenceWav (\<lambda>byteLength. True) 1) = Some 88244
   \<and> map_option (drop 44) (generateSilenceWav (\<lambda>byteLength. True) 1)
       = Some (replicate 88200 0)
   \<and> Option.bind (generateSilenceWav (\<lambda>byteLength. True) 1) data_length_field = Some 88200
   \<and> Option.bind (generateSilenceWav (\<lambda>byteLength. True) 1) riff_length_field = Some 88236
   \<and> generateSilenceWav (\<lambda>byteLength. False) 1 = None"
proof -
  have fits: "(44::nat) + 1 * 44100 * 2 \<le> 2 ^ 53 - 1"
    by simp
  with C3_silence_wav_layout [of "\<lambda>byteLength. True" 1] obtain buf where
    "generateSilenceWav (\<lambda>byteLength. True) 1 = Some buf"
    and "length buf = 44 + 1 * 44100 * 2"
    and "drop 44 buf = replicate (1 * 44100 * 2) 0"
    and "(1::nat) \<le> 48695 \<longrightarrow> data_length_field buf = Some (1 * 44100 * 2)
         \<and> riff_length_field buf = Some (36 + 1 * 44100 * 2)"
    by blast
  moreover from C3_silence_wav_layout [of "\<lambda>byteLength. False" 1]
  have "generateSilenceWav (\<lambda>byteLength. False) 1 = None"
    by blast
  ultimately show ?thesis
    using fits by simp
qed

text \<open>
  Claim C3 as stated fails for long durations. For \<open>d = 48696\<close> the data length is
  \<open>4294987200\<close>, which is \<open>2^32 + 19904\<close>. An engine that allocates buffers of up to
  \<open>2^33\<close> bytes returns a buffer with that many sample bytes, but the 32-bit fields hold
  19904 and 19940. An engine that allocates at most \<open>2^32\<close> bytes returns no buffer at all
  for that duration.
\<close>

theorem C3_length_field_wraps_counterexample:
  "map_option length (generateSilenceWav (\<lambda>byteLength. byteLength \<le> 2 ^ 33) 48696)
     = Some (44 + 48696 * 44100 * 2)
   \<and> 48696 * 44100 * 2 = (4294987200 :: nat)
   \<and> Option.bind (generateSilenceWav (\<lambda>byteLength. byteLength \<le> 2 ^ 33) 48696)
         data_length_field = Some 19904
   \<and> Option.bind (generateSilenceWav (\<lambda>byteLength. byteLength \<le> 2 ^ 33) 48696)
         data_length_field \<noteq> Some (48696 * 44100 * 2)
   \<and> Option.bind (generateSilenceWav (\<lambda>byteLength. byteLength \<le> 2 ^ 33) 48696)
         riff_length_field = Some 19940
   \<and> Option.bind (generateSilenceWav (\<lambda>byteLength. byteLength \<le> 2 ^ 33) 48696)
         riff_length_field \<noteq> Some (36 + 48696 * 44100 * 2)
   \<and> generateSilenceWav (\<lambda>byteLength. byteLength \<le> 2 ^ 32) 48696 = None"
proof -
  have granted: "generateSilenceWav (\<lambda>byteLength. byteLength \<le> 2 ^ 33) 48696
                 = Some (wav_header (48696 * 44100 * 2) @ replicate (48696 * 44100 * 2) 0)"
    by (rule generateSilenceWav_granted) (simp_all add: MAX_SAFE_INTEGER_def)
  have refused: "generateSilenceWav (\<lambda>byteLength. byteLength \<le> 2 ^ 32) 48696 = None"
    by (rule generateSilenceWav_refused) simp
  show ?thesis
    unfolding granted refused
    by (simp add: length_wav_header wav_header_data_length wav_header_riff_length)
qed

section \<open>Properties of the pipeline orchestrator\<close>

lemma advances_refl: "advances s [] s"
  by (simp add: advances_def)

lemma advances_trans:
  "advances s evs s' \<Longrightarrow> advances s' evs' s'' \<Longrightarrow> advances s (evs @ evs') s''"
  by (simp add: advances_def)

lemma logger_advances: "advances s [] (logger m s)"
  by (simp add: logger_def advances_def)

lemma fold_logger_advances: "advances s [] (fold logger ms s)"
proof (induction ms arbitrary: s)
  case Nil
  show ?case by (simp add: advances_refl)
next
  case (Cons m ms)
  have "advances s ([] @ []) (fold logger ms (logger m s))"
    using logger_advances Cons.IH by (rule advances_trans)
  then show ?case by simp
qed

lemma advances_effects_update:
  "advances s evs s' \<Longrightarrow> advances s (evs @ [ev]) (s'\<lparr>effects := effects s' @ [ev]\<rparr>)"
  by (simp add: advances_def)

lemma advances_ffmpegRef_update:
  "advances s evs s' \<Longrightarrow> advances s evs (s'\<lparr>ffmpegRef := b\<rparr>)"
  by (simp add: advances_def)

lemma ends_then_do:
  assumes "ends r Q E" and "\<And>a s1. Q a s1 \<Longrightarrow> ends (f a s1) R E"
  shows "ends (then_do r f) R E"
proof (cases r)
  case (Pair x s)
  show ?thesis
  proof (cases x)
    case (Inl t)
    with Pair assms(1) show ?thesis
      by (simp add: ends_def then_do_def)
  next
    case (Inr a)
    with Pair assms(1) have "Q a s"
      by (simp add: ends_def)
    then have "ends (f a s) R E"
      by (rule assms(2))
    with Pair Inr show ?thesis
      by (simp add: then_do_def)
  qed
qed

lemma reached_start: "reached e s0 {} {} s0"
  unfolding reached_def using advances_refl [of s0] by fastforce

lemma reached_weaken:
  "reached e s0 R S s \<Longrightarrow> reached e s0 {} {} s"
  unfolding reached_def by auto

lemma reached_fields:
  assumes "reached e s0 R S s"
  shows "updates s = updates s0" and "videoUrl s = videoUrl s0"
  using assms unfolding reached_def advances_def by auto

lemma reached_step:
  assumes "reached e s0 R S s" and "advances s [] s1"
  shows "reached e s0 R S s1"
proof -
  from assms(1) obtain evs where evs: "advances s0 evs s" "\<forall>ev\<in>set evs. \<not> is_revoke ev"
    "R \<subseteq> set evs" and st: "\<forall>st\<in>S. throws e st = None"
    unfolding reached_def by blast
  from evs(1) assms(2) have "advances s0 (evs @ []) s1"
    by (rule advances_trans)
  with evs st show ?thesis
    unfolding reached_def by auto
qed

lemma reached_effect:
  assumes "reached e s0 R S s" and "\<not> is_revoke ev"
  shows "reached e s0 (insert ev R) S (s\<lparr>effects := effects s @ [ev]\<rparr>)"
proof -
  from assms(1) obtain evs where evs: "advances s0 evs s" "\<forall>ev\<in>set evs. \<not> is_revoke ev"
    "R \<subseteq> set evs" and st: "\<forall>st\<in>S. throws e st = None"
    unfolding reached_def by blast
  from evs(1) have "advances s0 (evs @ [ev]) (s\<lparr>effects := effects s @ [ev]\<rparr>)"
    by (rule advances_effects_update)
  moreover have "\<forall>x\<in>set (evs @ [ev]). \<not> is_revoke x"
    using evs(2) assms(2) by simp
  moreover have "insert ev R \<subseteq> set (evs @ [ev])"
    using evs(3) by auto
  ultimately show ?thesis
    using st unfolding reached_def by blast
qed

lemma reached_stage:
  "reached e s0 R S s \<Longrightarrow> throws e st = None \<Longrightarrow> reached e s0 R (insert st S) s"
  unfolding reached_def by auto

lemma perform_reached:
  assumes "reached e s0 R S s" and "\<not> is_revoke ev" and "st \<in> T"
  shows "ends (perform e st ev s)
           (\<lambda>_. reached e s0 (insert ev R) (insert st S)) (failed e s0 T)"
proof -
  have logged: "reached e s0 R S (fold logger (emits e st) s)"
    using assms(1) fold_logger_advances by (rule reached_step)
  show ?thesis
  proof (cases "throws e st")
    case (Some t)
    with logged assms(3) show ?thesis
      by (auto simp: perform_def ends_def Let_def failed_def reached_weaken)
  next
    case None
    from logged assms(2)
    have "reached e s0 (insert ev R) S
            ((fold logger (emits e st) s)\<lparr>effects := effects (fold logger (emits e st) s) @ [ev]\<rparr>)"
      by (rule reached_effect)
    then have "reached e s0 (insert ev R) (insert st S)
            ((fold logger (emits e st) s)\<lparr>effects := effects (fold logger (emits e st) s) @ [ev]\<rparr>)"
      using None by (rule reached_stage)
    with None show ?thesis
      by (simp add: perform_def ends_def Let_def)
  qed
qed

lemma perform_reached_last:
  assumes "reached e s0 R S s" and "st \<in> T"
  shows "ends (perform e st ev s)
           (\<lambda>_ s'. \<exists>s1. reached e s0 R (insert st S) s1
                        \<and> s' = s1\<lparr>effects := effects s1 @ [ev]\<rparr>)
           (failed e s0 T)"
proof -
  have logged: "reached e s0 R S (fold logger (emits e st) s)"
    using assms(1) fold_logger_advances by (rule reached_step)
  show ?thesis
  proof (cases "throws e st")
    case (Some t)
    with logged assms(2) show ?thesis
      by (auto simp: perform_def ends_def Let_def failed_def reached_weaken)
  next
    case None
    with logged have "reached e s0 R (insert st S) (fold logger (emits e st) s)"
      by (rule reached_stage)
    with None show ?thesis
      by (auto simp: perform_def ends_def Let_def)
  qed
qed

lemma ensureFFmpeg_reached:
  assumes "\<not> ffmpegRef s0 \<Longrightarrow> LoadEncoder \<in> T"
  shows "ends (ensureFFmpeg e s0)
     (\<lambda>_. reached e s0 {} (if ffmpegRef s0 then {} else {LoadEncoder})) (failed e s0 T)"
proof (cases "ffmpegRef s0")
  case True
  then show ?thesis
    by (simp add: ensureFFmpeg_def ends_def reached_start)
next
  case False
  have "\<not> is_revoke CreateFFmpeg" and nr: "\<not> is_revoke LoadFFmpeg"
    by (simp_all add: is_revoke_def)
  with reached_start [of e s0]
  have "reached e s0 {CreateFFmpeg} {} (s0\<lparr>effects := effects s0 @ [CreateFFmpeg]\<rparr>)"
    by (intro reached_effect)
  then have "ends (perform e LoadEncoder LoadFFmpeg (s0\<lparr>effects := effects s0 @ [CreateFFmpeg]\<rparr>))
           (\<lambda>_. reached e s0 (insert LoadFFmpeg {CreateFFmpeg}) (insert LoadEncoder {}))
           (failed e s0 T)"
    using nr assms [OF False] by (rule perform_reached)
  then have "ends (then_do (perform e LoadEncoder LoadFFmpeg (s0\<lparr>effects := effects s0 @ [CreateFFmpeg]\<rparr>))
                 (\<lambda>_ s. (Inr (), s\<lparr>ffmpegRef := True\<rparr>)))
           (\<lambda>_. reached e s0 {} {LoadEncoder}) (failed e s0 T)"
  proof (rule ends_then_do)
    fix a :: unit and s1
    assume "reached e s0 (insert LoadFFmpeg {CreateFFmpeg}) (insert LoadEncoder {}) s1"
    then have "reached e s0 (insert LoadFFmpeg {CreateFFmpeg}) {LoadEncoder} (s1\<lparr>ffmpegRef := True\<rparr>)"
      by (rule reached_step) (simp add: advances_def)
    then have "reached e s0 {} {LoadEncoder} (s1\<lparr>ffmpegRef := True\<rparr>)"
      unfolding reached_def by auto
    then show "ends (Inr (), s1\<lparr>ffmpegRef := True\<rparr>) (\<lambda>_. reached e s0 {} {LoadEncoder})
                (failed e s0 T)"
      by (simp add: ends_def)
  qed
  with False show ?thesis
    by (simp add: ensureFFmpeg_def)
qed

lemma ends_mono:
  assumes "ends r Q E" and "\<And>a s. Q a s \<Longrightarrow> Q' a s"
  shows "ends r Q' E"
  using assms by (auto simp: ends_def split: prod.splits sum.splits)

lemma reached_mono:
  "reached e s0 R S s \<Longrightarrow> R' \<subseteq> R \<Longrightarrow> S' \<subseteq> S \<Longrightarrow> reached e s0 R' S' s"
  unfolding reached_def by blast

lemma prepare_slides_reached:
  assumes "reached e s0 R S s" and "RenderStage ` set idx \<union> WriteSlide ` set idx \<subseteq> T"
  shows "ends (prepare_slides e ups idx names s)
           (\<lambda>_. reached e s0 (R \<union> (\<lambda>i. RenderSlide (ups ! i) i (length ups)) ` set idx)
                   (S \<union> RenderStage ` set idx \<union> WriteSlide ` set idx))
           (failed e s0 T)"
  using assms
proof (induction idx arbitrary: names s R S)
  case Nil
  then show ?case
    by (simp add: ends_def)
next
  case (Cons i rest)
  let ?name = "ascii ''slide-'' @ Number_toString i @ ascii ''.png''"
  let ?render = "RenderSlide (ups ! i) i (length ups)"
  let ?stored = "FSWriteFile ?name (SlideImage i)"
  have nr: "\<not> is_revoke ?render" "\<not> is_revoke ?stored"
    by (simp_all add: is_revoke_def)
  from Cons.prems(2) have inT: "RenderStage i \<in> T" "WriteSlide i \<in> T"
    and restT: "RenderStage ` set rest \<union> WriteSlide ` set rest \<subseteq> T"
    by auto
  have "ends (then_do (perform e (RenderStage i) ?render s)
           (\<lambda>_ s. then_do (perform e (WriteSlide i) ?stored s)
             (\<lambda>_ s. prepare_slides e ups rest (names @ [?name]) s)))
          (\<lambda>_. reached e s0 (R \<union> (\<lambda>i. RenderSlide (ups ! i) i (length ups)) ` set (i # rest))
                   (S \<union> RenderStage ` set (i # rest) \<union> WriteSlide ` set (i # rest)))
          (failed e s0 T)"
  proof (rule ends_then_do [OF perform_reached [OF Cons.prems(1) nr(1) inT(1)]])
    fix a :: unit and s1
    assume r1: "reached e s0 (insert ?render R) (insert (RenderStage i) S) s1"
    show "ends (then_do (perform e (WriteSlide i) ?stored s1)
             (\<lambda>_ s. prepare_slides e ups rest (names @ [?name]) s))
          (\<lambda>_. reached e s0 (R \<union> (\<lambda>i. RenderSlide (ups ! i) i (length ups)) ` set (i # rest))
                   (S \<union> RenderStage ` set (i # rest) \<union> WriteSlide ` set (i # rest)))
          (failed e s0 T)"
    proof (rule ends_then_do [OF perform_reached [OF r1 nr(2) inT(2)]])
      fix b :: unit and s2
      assume r2: "reached e s0 (insert ?stored (insert ?render R))
                    (insert (WriteSlide i) (insert (RenderStage i) S)) s2"
      have "ends (prepare_slides e ups rest (names @ [?name]) s2)
              (\<lambda>_. reached e s0
                      (insert ?stored (insert ?render R)
                       \<union> (\<lambda>i. RenderSlide (ups ! i) i (length ups)) ` set rest)
                      (insert (WriteSlide i) (insert (RenderStage i) S)
                       \<union> RenderStage ` set rest \<union> WriteSlide ` set rest))
              (failed e s0 T)"
        using r2 restT by (rule Cons.IH)
      then show "ends (prepare_slides e ups rest (names @ [?name]) s2)
          (\<lambda>_. reached e s0 (R \<union> (\<lambda>i. RenderSlide (ups ! i) i (length ups)) ` set (i # rest))
                   (S \<union> RenderStage ` set (i # rest) \<union> WriteSlide ` set (i # rest)))
          (failed e s0 T)"
      proof (rule ends_mono)
        fix c s3
        assume "reached e s0
                  (insert ?stored (insert ?render R)
                   \<union> (\<lambda>i. RenderSlide (ups ! i) i (length ups)) ` set rest)
                  (insert (WriteSlide i) (insert (RenderStage i) S)
                   \<union> RenderStage ` set rest \<union> WriteSlide ` set rest) s3"
        then show "reached e s0
                 (R \<union> (\<lambda>i. RenderSlide (ups ! i) i (length ups)) ` set (i # rest))
                 (S \<union> RenderStage ` set (i # rest) \<union> WriteSlide ` set (i # rest)) s3"
          by (rule reached_mono) auto
      qed
    qed
  qed
  then show ?case
    by (simp add: Let_def)
qed

lemma not_revoke:
  "\<not> is_revoke (FSWriteFile name d)" "\<not> is_revoke (FFmpegRun args)"
  "\<not> is_revoke (FSReadFile name)" "\<not> is_revoke (CreateObjectURL u)"
  "\<not> is_revoke (RenderSlide up i n)" "\<not> is_revoke CreateFFmpeg" "\<not> is_revoke LoadFFmpeg"
  "\<not> is_revoke ConsoleError"
  by (simp_all add: is_revoke_def)

lemma set_pipeline_stages:
  "set (pipeline_stages s)
   = (if ffmpegRef s then {} else {LoadEncoder})
     \<union> RenderStage ` set [0..<length (updates s)] \<union> WriteSlide ` set [0..<length (updates s)]
     \<union> {WriteManifest, WriteSilence, RunEncoder, ReadOutput, CreateUrl}"
  by (auto simp: pipeline_stages_def)

lemma publish_completed:
  assumes r: "reached e s0 R S s6"
    and R: "\<forall>i<length (updates s0). RenderSlide (updates s0 ! i) i (length (updates s0)) \<in> R"
      "\<exists>script. FSWriteFile (ascii ''slides.txt'') (ManifestText script) \<in> R"
      "\<exists>silence. FSWriteFile (ascii ''silence.wav'') (WavBytes silence) \<in> R"
      "FFmpegRun ffmpeg_args \<in> R"
    and S: "set (pipeline_stages s0) \<subseteq> S"
    and granted: "allocates e (silence_length s0)"
    and s7: "s7 = s6\<lparr>effects := effects s6 @ [CreateObjectURL (fresh_url e)]\<rparr>"
    and final: "final = max (ceil_div MIN_VIDEO_DURATION_SECONDS (length (updates s0)))
                          FALLBACK_SLIDE_DURATION * length (updates s0)"
  shows "completed e s0
           ((case videoUrl s7 of
               None \<Rightarrow> s7
             | Some old \<Rightarrow>
                 if old \<noteq> [] then s7\<lparr>effects := effects s7 @ [RevokeObjectURL old]\<rparr> else s7)
            \<lparr>videoUrl := Some (fresh_url e), videoDuration := Some final\<rparr>)"
proof -
  from r obtain pre where pre: "advances s0 pre s6" "\<forall>ev\<in>set pre. \<not> is_revoke ev"
    "R \<subseteq> set pre" and st: "\<forall>st\<in>S. throws e st = None"
    unfolding reached_def by blast
  let ?s8 = "case videoUrl s7 of
               None \<Rightarrow> s7
             | Some old \<Rightarrow>
                 if old \<noteq> [] then s7\<lparr>effects := effects s7 @ [RevokeObjectURL old]\<rparr> else s7"
  have a7: "advances s0 (pre @ [CreateObjectURL (fresh_url e)]) s7"
    unfolding s7 using pre(1) by (rule advances_effects_update)
  then have v7: "videoUrl s7 = videoUrl s0"
    by (simp add: advances_def)
  have a8: "advances s0 (pre @ [CreateObjectURL (fresh_url e)] @ release_of s0) ?s8"
    using a7 by (auto simp: v7 release_of_def advances_def split: option.splits)
  have fin: "final = finalDuration (length (updates s0))"
    by (simp add: final finalDuration_def perSlideDuration_def)
  have renders: "\<forall>i<length (updates s0).
            RenderSlide (updates s0 ! i) i (length (updates s0)) \<in> set pre"
    using R(1) pre(3) by blast
  have "\<exists>script. FSWriteFile (ascii ''slides.txt'') (ManifestText script) \<in> set pre"
    using R(2) pre(3) by blast
  moreover have "\<exists>silence. FSWriteFile (ascii ''silence.wav'') (WavBytes silence) \<in> set pre"
    using R(3) pre(3) by blast
  moreover have "FFmpegRun ffmpeg_args \<in> set pre"
    using R(4) pre(3) by blast
  moreover have "\<forall>st\<in>set (pipeline_stages s0). throws e st = None"
    using st S by blast
  ultimately show ?thesis
    unfolding completed_def fin using a8 pre(2) renders granted by blast
qed

lemma generate_try_ends:
  "ends (generate_try e s0) (\<lambda>_. completed e s0) (failed e s0 (set (pipeline_stages s0)))"
  unfolding generate_try_def
proof (rule ends_then_do [OF ensureFFmpeg_reached], goal_cases)
  case 1
  then show ?case
    by (simp add: set_pipeline_stages)
next
  case (2 a s1)
  note r1 = this
  have inT: "RenderStage ` set [0..<length (updates s0)] \<union> WriteSlide ` set [0..<length (updates s0)]
             \<subseteq> set (pipeline_stages s0)"
    "WriteManifest \<in> set (pipeline_stages s0)" "WriteSilence \<in> set (pipeline_stages s0)"
    "RunEncoder \<in> set (pipeline_stages s0)" "ReadOutput \<in> set (pipeline_stages s0)"
    "CreateUrl \<in> set (pipeline_stages s0)"
    unfolding set_pipeline_stages by auto
  have u1: "updates s1 = updates s0"
    using r1 by (rule reached_fields)
  show ?case
    unfolding Let_def u1
  proof (rule ends_then_do [OF prepare_slides_reached [OF r1 inT(1)]], goal_cases)
    case (1 slideNames s2)
    note r2 = this
    show ?case
    proof (rule ends_then_do [OF perform_reached [OF r2 not_revoke(1) inT(2)]], goal_cases)
      case (1 b s3)
      note r3 = this
      show ?case
      proof (cases "allocates e (silence_length s0)")
        case False
        then have "generateSilenceWav (grants e)
                     (max (ceil_div MIN_VIDEO_DURATION_SECONDS (length (updates s0)))
                        FALLBACK_SLIDE_DURATION * length (updates s0)) = None"
          unfolding allocates_def silence_length_def finalDuration_def perSlideDuration_def
          by (rule generateSilenceWav_refused)
        moreover from r3 have "reached e s0 {} {} s3"
          by (rule reached_weaken)
        ultimately show ?thesis
          using False by (simp add: then_do_def ends_def failed_def)
      next
        case True
        note granted = this
        then have some: "generateSilenceWav (grants e)
                     (max (ceil_div MIN_VIDEO_DURATION_SECONDS (length (updates s0)))
                        FALLBACK_SLIDE_DURATION * length (updates s0))
            = Some (wav_header (max (ceil_div MIN_VIDEO_DURATION_SECONDS (length (updates s0)))
                                   FALLBACK_SLIDE_DURATION * length (updates s0) * 44100 * 2)
                    @ replicate (max (ceil_div MIN_VIDEO_DURATION_SECONDS (length (updates s0)))
                                   FALLBACK_SLIDE_DURATION * length (updates s0) * 44100 * 2) 0)"
          unfolding allocates_def silence_length_def finalDuration_def perSlideDuration_def
          by (intro generateSilenceWav_granted) simp_all
        show ?thesis
          unfolding some option.case
      proof (rule ends_then_do [OF perform_reached [OF r3 not_revoke(1) inT(3)]], goal_cases)
        case (1 c s4)
        note r4 = this
        show ?case
        proof (rule ends_then_do [OF perform_reached [OF r4 not_revoke(2) inT(4)]], goal_cases)
          case (1 d s5)
          note r5 = this
          show ?case
          proof (rule ends_then_do [OF perform_reached [OF r5 not_revoke(3) inT(5)]], goal_cases)
            case (1 f s6)
            note r6 = this
            show ?case
            proof (rule ends_then_do [OF perform_reached_last [OF r6 inT(6)]], goal_cases)
              case (1 g s7)
              then obtain s6' where r7: "reached e s0
                  (insert (FSReadFile (ascii ''output.mp4''))
                    (insert (FFmpegRun ffmpeg_args)
                      (insert (FSWriteFile (ascii ''silence.wav'')
                          (WavBytes (wav_header (max (ceil_div MIN_VIDEO_DURATION_SECONDS (length (updates s0))) FALLBACK_SLIDE_DURATION * length (updates s0) * 44100 * 2)
                                     @ replicate (max (ceil_div MIN_VIDEO_DURATION_SECONDS (length (updates s0))) FALLBACK_SLIDE_DURATION * length (updates s0) * 44100 * 2) 0)))
                        (insert (FSWriteFile (ascii ''slides.txt'')
                            (ManifestText (buildConcatScript slideNames
                               (max (ceil_div MIN_VIDEO_DURATION_SECONDS (length (updates s0))) FALLBACK_SLIDE_DURATION))))
                          ({} \<union> (\<lambda>i. RenderSlide (updates s0 ! i) i (length (updates s0)))
                                   ` set [0..<length (updates s0)])))))
                  (insert CreateUrl (insert ReadOutput (insert RunEncoder (insert WriteSilence
                     (insert WriteManifest
                        ((if ffmpegRef s0 then {} else {LoadEncoder})
                         \<union> RenderStage ` set [0..<length (updates s0)]
                         \<union> WriteSlide ` set [0..<length (updates s0)]))))))
                  s6'"
                and s7: "s7 = s6'\<lparr>effects := effects s6' @ [CreateObjectURL (fresh_url e)]\<rparr>"
                by blast
              have "completed e s0
                ((case videoUrl s7 of
                    None \<Rightarrow> s7
                  | Some old \<Rightarrow>
                      if old \<noteq> [] then s7\<lparr>effects := effects s7 @ [RevokeObjectURL old]\<rparr> else s7)
                 \<lparr>videoUrl := Some (fresh_url e),
                   videoDuration := Some (max (ceil_div MIN_VIDEO_DURATION_SECONDS (length (updates s0)))
                          FALLBACK_SLIDE_DURATION * length (updates s0))\<rparr>)"
                using r7
              proof (rule publish_completed)
                show "set (pipeline_stages s0)
                      \<subseteq> insert CreateUrl (insert ReadOutput (insert RunEncoder (insert WriteSilence
                         (insert WriteManifest
                            ((if ffmpegRef s0 then {} else {LoadEncoder})
                             \<union> RenderStage ` set [0..<length (updates s0)]
                             \<union> WriteSlide ` set [0..<length (updates s0)])))))"
                  unfolding set_pipeline_stages by auto
              qed (auto simp: s7 granted)
              then show ?case
                by (simp add: ends_def Let_def)
            qed
          qed
        qed
      qed
      qed
    qed
  qed
qed

lemma handleGenerateVideo_started:
  assumes "updates s \<noteq> []"
    and "generate_try e (s\<lparr>isGenerating := True, error := None, logs := []\<rparr>) = (r, s2)"
  shows "handleGenerateVideo e s
         = (let s3 = (case r of
                    Inr _ \<Rightarrow> s2
                  | Inl t \<Rightarrow>
                      s2\<lparr>effects := effects s2 @ [ConsoleError],
                         error := Some (case t of
                                          ErrorObject message \<Rightarrow> message
                                        | OtherValue \<Rightarrow>
                                            ascii ''Something went wrong while generating the video.'')\<rparr>)
            in if isMountedRef s3 then s3\<lparr>isGenerating := False\<rparr> else s3)"
  using assms by (simp add: handleGenerateVideo_def Let_def)

lemma handleGenerateVideo_outcome:
  assumes ne: "updates s \<noteq> []"
  shows "(((\<exists>st\<in>set (pipeline_stages s). throws e st \<noteq> None)
           \<or> \<not> allocates e (silence_length s))
          \<and> error (handleGenerateVideo e s) \<noteq> None
          \<and> videoUrl (handleGenerateVideo e s) = videoUrl s
          \<and> videoDuration (handleGenerateVideo e s) = videoDuration s
          \<and> (\<forall>ev\<in>set (new_effects s (handleGenerateVideo e s)). \<not> is_revoke ev))
       \<or> ((\<forall>st\<in>set (pipeline_stages s). throws e st = None)
          \<and> allocates e (silence_length s)
          \<and> error (handleGenerateVideo e s) = None
          \<and> videoUrl (handleGenerateVideo e s) = Some (fresh_url e)
          \<and> videoDuration (handleGenerateVideo e s) = Some (finalDuration (length (updates s)))
          \<and> (\<exists>pre. new_effects s (handleGenerateVideo e s)
                       = pre @ [CreateObjectURL (fresh_url e)] @ release_of s
                 \<and> (\<forall>ev\<in>set pre. \<not> is_revoke ev)
                 \<and> (\<forall>i<length (updates s).
                        RenderSlide (updates s ! i) i (length (updates s)) \<in> set pre)
                 \<and> (\<exists>script. FSWriteFile (ascii ''slides.txt'') (ManifestText script) \<in> set pre)
                 \<and> (\<exists>silence. FSWriteFile (ascii ''silence.wav'') (WavBytes silence) \<in> set pre)
                 \<and> FFmpegRun ffmpeg_args \<in> set pre))"
proof -
  define s1 where "s1 = s\<lparr>isGenerating := True, error := None, logs := []\<rparr>"
  obtain r s2 where g: "generate_try e s1 = (r, s2)"
    by (cases "generate_try e s1")
  have same: "pipeline_stages s1 = pipeline_stages s" "release_of s1 = release_of s"
    "updates s1 = updates s" "videoUrl s1 = videoUrl s" "videoDuration s1 = videoDuration s"
    "effects s1 = effects s" "error s1 = None" "silence_length s1 = silence_length s"
    by (simp_all add: s1_def pipeline_stages_def release_of_def silence_length_def)
  have h: "handleGenerateVideo e s
         = (let s3 = (case r of
                    Inr _ \<Rightarrow> s2
                  | Inl t \<Rightarrow>
                      s2\<lparr>effects := effects s2 @ [ConsoleError],
                         error := Some (case t of
                                          ErrorObject message \<Rightarrow> message
                                        | OtherValue \<Rightarrow>
                                            ascii ''Something went wrong while generating the video.'')\<rparr>)
            in if isMountedRef s3 then s3\<lparr>isGenerating := False\<rparr> else s3)"
    using ne g unfolding s1_def by (rule handleGenerateVideo_started)
  have e: "ends (r, s2) (\<lambda>_. completed e s1) (failed e s1 (set (pipeline_stages s1)))"
    using generate_try_ends [of e s1] by (simp only: g)
  show ?thesis
  proof (cases r)
    case (Inl t)
    with e have f: "failed e s1 (set (pipeline_stages s1)) s2"
      by (simp add: ends_def)
    then obtain evs where evs: "advances s1 evs s2" "\<forall>ev\<in>set evs. \<not> is_revoke ev"
      unfolding failed_def reached_def by blast
    from f have stage: "(\<exists>st\<in>set (pipeline_stages s). throws e st \<noteq> None)
                        \<or> \<not> allocates e (silence_length s)"
      unfolding failed_def same by blast
    from evs(1) have f2: "videoUrl s2 = videoUrl s" "videoDuration s2 = videoDuration s"
      "effects s2 = effects s @ evs"
      by (simp_all add: advances_def same)
    have "error (handleGenerateVideo e s) \<noteq> None"
      unfolding h by (simp add: Inl Let_def)
    moreover have "videoUrl (handleGenerateVideo e s) = videoUrl s"
      unfolding h by (simp add: Inl Let_def f2)
    moreover have "videoDuration (handleGenerateVideo e s) = videoDuration s"
      unfolding h by (simp add: Inl Let_def f2)
    moreover have "new_effects s (handleGenerateVideo e s) = evs @ [ConsoleError]"
      unfolding h by (simp add: Inl Let_def f2 new_effects_def)
    ultimately show ?thesis
      using stage evs(2) by (simp add: not_revoke)
  next
    case (Inr u)
    with e have c: "completed e s1 s2"
      by (simp add: ends_def)
    then obtain pre s'' where
      adv: "advances s1 (pre @ [CreateObjectURL (fresh_url e)] @ release_of s1) s''"
      and s2: "s2 = s''\<lparr>videoUrl := Some (fresh_url e),
                        videoDuration := Some (finalDuration (length (updates s1)))\<rparr>"
      and pre: "\<forall>ev\<in>set pre. \<not> is_revoke ev"
        "\<forall>i<length (updates s1). RenderSlide (updates s1 ! i) i (length (updates s1)) \<in> set pre"
        "\<exists>script. FSWriteFile (ascii ''slides.txt'') (ManifestText script) \<in> set pre"
        "\<exists>silence. FSWriteFile (ascii ''silence.wav'') (WavBytes silence) \<in> set pre"
        "FFmpegRun ffmpeg_args \<in> set pre"
      and passed: "\<forall>st\<in>set (pipeline_stages s1). throws e st = None"
        "allocates e (silence_length s1)"
      unfolding completed_def by blast
    from adv have f2: "error s'' = None"
      "effects s'' = effects s @ pre @ [CreateObjectURL (fresh_url e)] @ release_of s"
      by (simp_all add: advances_def same)
    have "error (handleGenerateVideo e s) = None"
      unfolding h by (simp add: Inr Let_def s2 f2)
    moreover have "videoUrl (handleGenerateVideo e s) = Some (fresh_url e)"
      unfolding h by (simp add: Inr Let_def s2)
    moreover have "videoDuration (handleGenerateVideo e s)
                   = Some (finalDuration (length (updates s)))"
      unfolding h by (simp add: Inr Let_def s2 same)
    moreover have "new_effects s (handleGenerateVideo e s)
                   = pre @ [CreateObjectURL (fresh_url e)] @ release_of s"
      unfolding h by (simp add: Inr Let_def s2 f2 new_effects_def)
    ultimately show ?thesis
      using pre passed unfolding same by blast
  qed
qed

lemma new_effects_empty_start: "effects s = [] \<Longrightarrow> new_effects s s' = effects s'"
  by (simp add: new_effects_def)

lemma release_of_Some: "videoUrl s = Some old \<Longrightarrow> old \<noteq> [] \<Longrightarrow> release_of s = [RevokeObjectURL old]"
  by (simp add: release_of_def)

lemma revoke_in_release:
  "RevokeObjectURL u \<in> set (release_of s) \<Longrightarrow> videoUrl s = Some u"
  by (auto simp: release_of_def split: option.splits if_splits)

lemma handleGenerateVideo_empty:
  "updates s = [] \<Longrightarrow>
   handleGenerateVideo e s
   = s\<lparr>error := Some (ascii ''Fetch the latest India updates before generating a video.'')\<rparr>"
  by (simp add: handleGenerateVideo_def)

text \<open>
  Claim C6, as amended. When generation is requested while the item list is empty, the
  handler returns at once: it sets the error message to the precondition message and
  changes nothing else. No effect happens: the encoder is neither created nor run, nothing
  is written, no object URL is created or released, and the page does not enter the
  generating state.
\<close>

theorem C6_empty_list_rejected:
  assumes "updates s = []"
  shows "handleGenerateVideo e s
           = s\<lparr>error := Some (ascii ''Fetch the latest India updates before generating a video.'')\<rparr>
    \<and> (handleGenerateVideo e s)\<lparr>error := error s\<rparr> = s
    \<and> new_effects s (handleGenerateVideo e s) = []
    \<and> effects (handleGenerateVideo e s) = effects s
    \<and> ffmpegRef (handleGenerateVideo e s) = ffmpegRef s
    \<and> isGenerating (handleGenerateVideo e s) = isGenerating s
    \<and> videoUrl (handleGenerateVideo e s) = videoUrl s
    \<and> videoDuration (handleGenerateVideo e s) = videoDuration s
    \<and> logs (handleGenerateVideo e s) = logs s"
  using assms by (simp add: handleGenerateVideo_empty new_effects_def)

theorem C6_empty_list_rejected_witness:
  "updates fresh_page = []
   \<and> handleGenerateVideo calm_env fresh_page
       = fresh_page\<lparr>error := Some (ascii ''Fetch the latest India updates before generating a video.'')\<rparr>
   \<and> effects (handleGenerateVideo calm_env fresh_page) = []
   \<and> isGenerating (handleGenerateVideo calm_env fresh_page) = False
   \<and> ffmpegRef (handleGenerateVideo calm_env fresh_page) = False"
proof -
  have empty: "updates fresh_page = []"
    by (simp add: fresh_page_def)
  from C6_empty_list_rejected [OF empty, of calm_env] show ?thesis
    by (simp add: fresh_page_def)
qed

text \<open>
  Claim C6 as stated says that all state is left unchanged. The handler reports the
  precondition error by setting the \<open>error\<close> state: on a fresh page, whose error is unset,
  the page after the request differs from the page before it.
\<close>

theorem C6_error_state_changes_counterexample:
  "updates fresh_page = []
   \<and> error fresh_page = None
   \<and> error (handleGenerateVideo calm_env fresh_page)
       = Some (ascii ''Fetch the latest India updates before generating a video.'')
   \<and> handleGenerateVideo calm_env fresh_page \<noteq> fresh_page"
proof -
  have "updates fresh_page = []" and none: "error fresh_page = None"
    by (simp_all add: fresh_page_def)
  then have err: "error (handleGenerateVideo calm_env fresh_page)
       = Some (ascii ''Fetch the latest India updates before generating a video.'')"
    by (simp add: handleGenerateVideo_empty)
  with none have "handleGenerateVideo calm_env fresh_page \<noteq> fresh_page"
    by (metis option.distinct(1))
  with err none show ?thesis
    by (simp add: fresh_page_def)
qed

text \<open>
  Claim C9. A run that ends with an error (a stage threw, the encoder included, the buffer
  of the silent track was refused, or the list was empty) leaves the video URL and the
  duration of the earlier run as they were, and releases no object URL. A started run ends
  with an error exactly when one of its stages throws or the buffer of its silent track is
  not allocated. An object URL is released only by a run that succeeds: the URL released
  is the one the page held before, and the page then holds the new URL and duration.
\<close>

theorem C9_failed_run_keeps_video:
  "(error (handleGenerateVideo e s) \<noteq> None \<longrightarrow>
       videoUrl (handleGenerateVideo e s) = videoUrl s
     \<and> videoDuration (handleGenerateVideo e s) = videoDuration s
     \<and> (\<forall>ev\<in>set (new_effects s (handleGenerateVideo e s)). \<not> is_revoke ev))
   \<and> (updates s \<noteq> [] \<longrightarrow>
        (error (handleGenerateVideo e s) \<noteq> None
         \<longleftrightarrow> (\<exists>st\<in>set (pipeline_stages s). throws e st \<noteq> None)
              \<or> \<not> allocates e (silence_length s)))
   \<and> (\<forall>u. RevokeObjectURL u \<in> set (new_effects s (handleGenerateVideo e s)) \<longrightarrow>
          error (handleGenerateVideo e s) = None
        \<and> videoUrl s = Some u
        \<and> videoUrl (handleGenerateVideo e s) = Some (fresh_url e)
        \<and> videoDuration (handleGenerateVideo e s)
            = Some (finalDuration (length (updates s))))"
proof (cases "updates s = []")
  case True
  then show ?thesis
    by (simp add: handleGenerateVideo_empty new_effects_def)
next
  case False
  from handleGenerateVideo_outcome [OF False, of e] show ?thesis
  proof (rule disjE)
    assume stopped: "((\<exists>st\<in>set (pipeline_stages s). throws e st \<noteq> None)
           \<or> \<not> allocates e (silence_length s))
          \<and> error (handleGenerateVideo e s) \<noteq> None
          \<and> videoUrl (handleGenerateVideo e s) = videoUrl s
          \<and> videoDuration (handleGenerateVideo e s) = videoDuration s
          \<and> (\<forall>ev\<in>set (new_effects s (handleGenerateVideo e s)). \<not> is_revoke ev)"
    then have "RevokeObjectURL u \<notin> set (new_effects s (handleGenerateVideo e s))" for u
      by (auto simp: is_revoke_def)
    with stopped show ?thesis
      by blast
  next
    assume "(\<forall>st\<in>set (pipeline_stages s). throws e st = None)
          \<and> allocates e (silence_length s)
          \<and> error (handleGenerateVideo e s) = None
          \<and> videoUrl (handleGenerateVideo e s) = Some (fresh_url e)
          \<and> videoDuration (handleGenerateVideo e s) = Some (finalDuration (length (updates s)))
          \<and> (\<exists>pre. new_effects s (handleGenerateVideo e s)
                       = pre @ [CreateObjectURL (fresh_url e)] @ release_of s
                 \<and> (\<forall>ev\<in>set pre. \<not> is_revoke ev)
                 \<and> (\<forall>i<length (updates s).
                        RenderSlide (updates s ! i) i (length (updates s)) \<in> set pre)
                 \<and> (\<exists>script. FSWriteFile (ascii ''slides.txt'') (ManifestText script) \<in> set pre)
                 \<and> (\<exists>silence. FSWriteFile (ascii ''silence.wav'') (WavBytes silence) \<in> set pre)
                 \<and> FFmpegRun ffmpeg_args \<in> set pre)"
    then obtain pre where passed: "\<forall>st\<in>set (pipeline_stages s). throws e st = None"
        "allocates e (silence_length s)"
      and ok: "error (handleGenerateVideo e s) = None"
        "videoUrl (handleGenerateVideo e s) = Some (fresh_url e)"
        "videoDuration (handleGenerateVideo e s) = Some (finalDuration (length (updates s)))"
      and new: "new_effects s (handleGenerateVideo e s)
                = pre @ [CreateObjectURL (fresh_url e)] @ release_of s"
      and pre: "\<forall>ev\<in>set pre. \<not> is_revoke ev"
      by blast
    have "videoUrl s = Some u"
      if "RevokeObjectURL u \<in> set (new_effects s (handleGenerateVideo e s))" for u
    proof -
      from that new pre have "RevokeObjectURL u \<in> set (release_of s)"
        by (auto simp: is_revoke_def)
      then show ?thesis
        by (rule revoke_in_release)
    qed
    with passed ok show ?thesis
      by auto
  qed
qed

theorem C9_failed_run_keeps_video_witness:
  "updates page_with_video \<noteq> []
   \<and> RunEncoder \<in> set (pipeline_stages page_with_video)
   \<and> throws (failing_env RunEncoder) RunEncoder \<noteq> None
   \<and> error (handleGenerateVideo (failing_env RunEncoder) page_with_video) \<noteq> None
   \<and> videoUrl (handleGenerateVideo (failing_env RunEncoder) page_with_video)
       = Some (ascii ''blob:old'')
   \<and> videoDuration (handleGenerateVideo (failing_env RunEncoder) page_with_video) = Some 240"
proof -
  have ne: "updates page_with_video \<noteq> []"
    by (simp add: page_with_video_def)
  have stage: "RunEncoder \<in> set (pipeline_stages page_with_video)"
    by (simp add: pipeline_stages_def)
  have thr: "throws (failing_env RunEncoder) RunEncoder \<noteq> None"
    by (simp add: failing_env_def)
  from stage thr
  have ex: "\<exists>st\<in>set (pipeline_stages page_with_video). throws (failing_env RunEncoder) st \<noteq> None"
    by blast
  from C9_failed_run_keeps_video [of "failing_env RunEncoder" page_with_video] ne ex
  have err: "error (handleGenerateVideo (failing_env RunEncoder) page_with_video) \<noteq> None"
    by blast
  with C9_failed_run_keeps_video [of "failing_env RunEncoder" page_with_video]
  have "videoUrl (handleGenerateVideo (failing_env RunEncoder) page_with_video)
          = videoUrl page_with_video"
    and "videoDuration (handleGenerateVideo (failing_env RunEncoder) page_with_video)
          = videoDuration page_with_video"
    by blast+
  with ne stage thr err show ?thesis
    by (simp add: page_with_video_def fresh_page_def)
qed

lemma page_with_video_facts:
  "updates page_with_video = [sample_update ''a'']"
  "videoUrl page_with_video = Some (ascii ''blob:old'')"
  "effects page_with_video = []"
  "release_of page_with_video = [RevokeObjectURL (ascii ''blob:old'')]"
  "\<forall>st\<in>set (pipeline_stages page_with_video). throws calm_env st = None"
  "fresh_url calm_env = ascii ''blob:new''"
  "allocates calm_env (silence_length page_with_video)"
  by (simp_all add: page_with_video_def fresh_page_def release_of_def calm_env_def ascii_def
      allocates_def silence_length_def finalDuration_def perSlideDuration_def ceil_div_def
      MIN_VIDEO_DURATION_SECONDS_def FALLBACK_SLIDE_DURATION_def MAX_SAFE_INTEGER_def)

text \<open>
  An engine that refuses the buffer of the silent track: the run ends with an error, and
  the page keeps the video it had.
\<close>

lemma refused_buffer_keeps_video:
  "error (handleGenerateVideo stingy_env page_with_video) \<noteq> None
   \<and> videoUrl (handleGenerateVideo stingy_env page_with_video) = Some (ascii ''blob:old'')
   \<and> videoDuration (handleGenerateVideo stingy_env page_with_video) = Some 240"
proof -
  have ne: "updates page_with_video \<noteq> []"
    by (simp add: page_with_video_facts)
  have refused: "\<not> allocates stingy_env (silence_length page_with_video)"
    by (simp add: allocates_def stingy_env_def)
  from handleGenerateVideo_outcome [OF ne, of stingy_env] refused
  have "error (handleGenerateVideo stingy_env page_with_video) \<noteq> None
        \<and> videoUrl (handleGenerateVideo stingy_env page_with_video) = videoUrl page_with_video
        \<and> videoDuration (handleGenerateVideo stingy_env page_with_video)
            = videoDuration page_with_video"
    by auto
  then show ?thesis
    by (simp add: page_with_video_def fresh_page_def)
qed

text \<open>
  Claim C10, as amended. A generation run releases the previously produced video only at
  its very end, and only when it succeeds: the effects of a successful run are the
  rendering of every slide, the writing of the manifest and of the silent track and the
  encoder run, none of them a release, then the creation of the new object URL, and only
  then the release of the URL held before (when there is one). A run that fails releases
  nothing. A run succeeds when no stage throws and the buffer of its silent track is
  allocated.
\<close>

theorem C10_release_after_encoding:
  assumes "updates s \<noteq> []"
  shows "(error (handleGenerateVideo e s) = None \<longrightarrow>
          (\<exists>pre. new_effects s (handleGenerateVideo e s)
                   = pre @ [CreateObjectURL (fresh_url e)] @ release_of s
             \<and> (\<forall>ev\<in>set pre. \<not> is_revoke ev)
             \<and> (\<forall>i<length (updates s).
                    RenderSlide (updates s ! i) i (length (updates s)) \<in> set pre)
             \<and> (\<exists>script. FSWriteFile (ascii ''slides.txt'') (ManifestText script) \<in> set pre)
             \<and> (\<exists>silence. FSWriteFile (ascii ''silence.wav'') (WavBytes silence) \<in> set pre)
             \<and> FFmpegRun ffmpeg_args \<in> set pre))
    \<and> (error (handleGenerateVideo e s) \<noteq> None \<longrightarrow>
          (\<forall>ev\<in>set (new_effects s (handleGenerateVideo e s)). \<not> is_revoke ev))
    \<and> (\<forall>old. videoUrl s = Some old \<and> old \<noteq> [] \<longrightarrow> release_of s = [RevokeObjectURL old])
    \<and> (videoUrl s = None \<longrightarrow> release_of s = [])
    \<and> ((\<forall>st\<in>set (pipeline_stages s). throws e st = None)
          \<and> allocates e (silence_length s) \<longrightarrow>
          error (handleGenerateVideo e s) = None)"
proof -
  have rel: "\<forall>old. videoUrl s = Some old \<and> old \<noteq> [] \<longrightarrow> release_of s = [RevokeObjectURL old]"
    "videoUrl s = None \<longrightarrow> release_of s = []"
    by (simp_all add: release_of_def)
  from handleGenerateVideo_outcome [OF assms, of e] show ?thesis
  proof (rule disjE)
    assume "((\<exists>st\<in>set (pipeline_stages s). throws e st \<noteq> None)
           \<or> \<not> allocates e (silence_length s))
          \<and> error (handleGenerateVideo e s) \<noteq> None
          \<and> videoUrl (handleGenerateVideo e s) = videoUrl s
          \<and> videoDuration (handleGenerateVideo e s) = videoDuration s
          \<and> (\<forall>ev\<in>set (new_effects s (handleGenerateVideo e s)). \<not> is_revoke ev)"
    with rel show ?thesis
      by auto
  next
    assume "(\<forall>st\<in>set (pipeline_stages s). throws e st = None)
          \<and> allocates e (silence_length s)
          \<and> error (handleGenerateVideo e s) = None
          \<and> videoUrl (handleGenerateVideo e s) = Some (fresh_url e)
          \<and> videoDuration (handleGenerateVideo e s) = Some (finalDuration (length (updates s)))
          \<and> (\<exists>pre. new_effects s (handleGenerateVideo e s)
                       = pre @ [CreateObjectURL (fresh_url e)] @ release_of s
                 \<and> (\<forall>ev\<in>set pre. \<not> is_revoke ev)
                 \<and> (\<forall>i<length (updates s).
                        RenderSlide (updates s ! i) i (length (updates s)) \<in> set pre)
                 \<and> (\<exists>script. FSWriteFile (ascii ''slides.txt'') (ManifestText script) \<in> set pre)
                 \<and> (\<exists>silence. FSWriteFile (ascii ''silence.wav'') (WavBytes silence) \<in> set pre)
                 \<and> FFmpegRun ffmpeg_args \<in> set pre)"
    with rel show ?thesis
      by auto
  qed
qed

theorem C10_release_after_encoding_witness:
  "updates page_with_video \<noteq> []
   \<and> videoUrl page_with_video = Some (ascii ''blob:old'')
   \<and> error (handleGenerateVideo calm_env page_with_video) = None
   \<and> last (effects (handleGenerateVideo calm_env page_with_video))
       = RevokeObjectURL (ascii ''blob:old'')
   \<and> FFmpegRun ffmpeg_args \<in> set (butlast (effects (handleGenerateVideo calm_env page_with_video)))"
proof -
  have ne: "updates page_with_video \<noteq> []"
    by (simp add: page_with_video_facts)
  note c10 = C10_release_after_encoding [OF ne, of calm_env]
  from c10 page_with_video_facts(5) page_with_video_facts(7)
  have ok: "error (handleGenerateVideo calm_env page_with_video) = None"
    by blast
  with c10 obtain pre where
    "new_effects page_with_video (handleGenerateVideo calm_env page_with_video)
       = pre @ [CreateObjectURL (fresh_url calm_env)] @ release_of page_with_video"
    and "FFmpegRun ffmpeg_args \<in> set pre"
    by blast
  then have "effects (handleGenerateVideo calm_env page_with_video)
             = pre @ [CreateObjectURL (ascii ''blob:new''), RevokeObjectURL (ascii ''blob:old'')]"
    and "FFmpegRun ffmpeg_args \<in> set pre"
    by (simp_all add: page_with_video_facts new_effects_empty_start)
  then have "last (effects (handleGenerateVideo calm_env page_with_video))
               = RevokeObjectURL (ascii ''blob:old'')"
    and "FFmpegRun ffmpeg_args
           \<in> set (butlast (effects (handleGenerateVideo calm_env page_with_video)))"
    by (simp_all add: butlast_append)
  with ne ok show ?thesis
    by (simp add: page_with_video_facts)
qed

text \<open>
  Claim C10 as stated has the earlier video released before rendering starts. On a page
  that holds one story and the video \<open>blob:old\<close> of an earlier run, with collaborators that
  never fail, the release of \<open>blob:old\<close> is the last effect of the run: the slide is
  rendered and the encoder is run before it, and \<open>blob:old\<close> is not released before then.
\<close>

theorem C10_release_is_last_counterexample:
  "videoUrl page_with_video = Some (ascii ''blob:old'')
   \<and> last (effects (handleGenerateVideo calm_env page_with_video))
       = RevokeObjectURL (ascii ''blob:old'')
   \<and> RenderSlide (sample_update ''a'') 0 1
       \<in> set (butlast (effects (handleGenerateVideo calm_env page_with_video)))
   \<and> FFmpegRun ffmpeg_args
       \<in> set (butlast (effects (handleGenerateVideo calm_env page_with_video)))
   \<and> RevokeObjectURL (ascii ''blob:old'')
       \<notin> set (butlast (effects (handleGenerateVideo calm_env page_with_video)))"
proof -
  have ne: "updates page_with_video \<noteq> []"
    by (simp add: page_with_video_facts)
  from handleGenerateVideo_outcome [OF ne, of calm_env] show ?thesis
  proof (rule disjE)
    assume "((\<exists>st\<in>set (pipeline_stages page_with_video). throws calm_env st \<noteq> None)
           \<or> \<not> allocates calm_env (silence_length page_with_video))
          \<and> error (handleGenerateVideo calm_env page_with_video) \<noteq> None
          \<and> videoUrl (handleGenerateVideo calm_env page_with_video) = videoUrl page_with_video
          \<and> videoDuration (handleGenerateVideo calm_env page_with_video)
              = videoDuration page_with_video
          \<and> (\<forall>ev\<in>set (new_effects page_with_video (handleGenerateVideo calm_env page_with_video)).
                \<not> is_revoke ev)"
    with page_with_video_facts(5) page_with_video_facts(7) have False
      by auto
    then show ?thesis ..
  next
    assume "(\<forall>st\<in>set (pipeline_stages page_with_video). throws calm_env st = None)
          \<and> allocates calm_env (silence_length page_with_video)
          \<and> error (handleGenerateVideo calm_env page_with_video) = None
          \<and> videoUrl (handleGenerateVideo calm_env page_with_video) = Some (fresh_url calm_env)
          \<and> videoDuration (handleGenerateVideo calm_env page_with_video)
              = Some (finalDuration (length (updates page_with_video)))
          \<and> (\<exists>pre. new_effects page_with_video (handleGenerateVideo calm_env page_with_video)
                       = pre @ [CreateObjectURL (fresh_url calm_env)] @ release_of page_with_video
                 \<and> (\<forall>ev\<in>set pre. \<not> is_revoke ev)
                 \<and> (\<forall>i<length (updates page_with_video).
                        RenderSlide (updates page_with_video ! i) i
                          (length (updates page_with_video)) \<in> set pre)
                 \<and> (\<exists>script. FSWriteFile (ascii ''slides.txt'') (ManifestText script) \<in> set pre)
                 \<and> (\<exists>silence. FSWriteFile (ascii ''silence.wav'') (WavBytes silence) \<in> set pre)
                 \<and> FFmpegRun ffmpeg_args \<in> set pre)"
    then obtain pre where
      new: "new_effects page_with_video (handleGenerateVideo calm_env page_with_video)
       = pre @ [CreateObjectURL (fresh_url calm_env)] @ release_of page_with_video"
      and pre: "\<forall>ev\<in>set pre. \<not> is_revoke ev"
        "\<forall>i<length (updates page_with_video).
            RenderSlide (updates page_with_video ! i) i (length (updates page_with_video)) \<in> set pre"
        "FFmpegRun ffmpeg_args \<in> set pre"
      by blast
    from new have eff: "effects (handleGenerateVideo calm_env page_with_video)
             = pre @ [CreateObjectURL (ascii ''blob:new''), RevokeObjectURL (ascii ''blob:old'')]"
      by (simp add: page_with_video_facts new_effects_empty_start)
    from pre(2) have render: "RenderSlide (sample_update ''a'') 0 1 \<in> set pre"
      by (simp add: page_with_video_facts)
    from pre(1) have norev: "RevokeObjectURL (ascii ''blob:old'') \<notin> set pre"
      by (auto simp: is_revoke_def)
    from eff render pre(3) norev show ?thesis
      by (simp add: butlast_append page_with_video_facts)
  qed
qed

section \<open>Properties of the wrapped text\<close>

lemma SP_is_whitespace: "is_js_whitespace SP"
  by (simp add: is_js_whitespace_def SP_def)

lemma split_ws_no_whitespace:
  "w \<in> set (split_ws s) \<Longrightarrow> c \<in> set w \<Longrightarrow> \<not> is_js_whitespace c"
proof (induction s arbitrary: w rule: split_ws.induct)
  case (1 s)
  let ?word = "takeWhile (\<lambda>c. \<not> is_js_whitespace c) s"
  let ?rest = "dropWhile (\<lambda>c. \<not> is_js_whitespace c) s"
  have first: "\<not> is_js_whitespace c" if "c \<in> set ?word"
    using that by (rule set_takeWhileD [THEN conjunct2])
  show ?case
  proof (cases "?rest = []")
    case True
    with "1.prems" have "w = ?word"
      by (subst (asm) split_ws.simps) (simp add: Let_def)
    with first "1.prems"(2) show ?thesis
      by simp
  next
    case False
    with "1.prems"(1) have "w = ?word \<or> w \<in> set (split_ws (dropWhile is_js_whitespace ?rest))"
      by (subst (asm) split_ws.simps) (auto simp: Let_def split: if_splits)
    then show ?thesis
    proof
      assume "w = ?word"
      with first "1.prems"(2) show ?thesis
        by simp
    next
      assume "w \<in> set (split_ws (dropWhile is_js_whitespace ?rest))"
      with False "1.prems"(2) show ?thesis
        by (intro "1.IH" [of ?word ?rest w]) simp_all
    qed
  qed
qed

lemma split_ws_no_space: "w \<in> set (split_ws s) \<Longrightarrow> SP \<notin> set w"
  using split_ws_no_whitespace SP_is_whitespace by blast

lemma split_spaces_not_Nil: "split_spaces s \<noteq> []"
  by (induction s) (auto split: list.splits)

lemma split_spaces_append:
  "split_spaces (a @ SP # b) = split_spaces a @ split_spaces b"
proof (induction a)
  case Nil
  show ?case by simp
next
  case (Cons c a)
  show ?case
  proof (cases "c = SP")
    case True
    with Cons.IH show ?thesis by simp
  next
    case False
    obtain t ts where ts: "split_spaces a = t # ts"
      using split_spaces_not_Nil [of a] by (cases "split_spaces a") auto
    with False Cons.IH show ?thesis
      by simp
  qed
qed

lemma split_spaces_word: "SP \<notin> set w \<Longrightarrow> split_spaces w = [w]"
  by (induction w) auto

lemma split_spaces_snoc_word:
  "SP \<notin> set w \<Longrightarrow> split_spaces (cur @ SP # w) = split_spaces cur @ [w]"
  by (simp add: split_spaces_append split_spaces_word)

lemma held_words_step:
  assumes "SP \<notin> set w"
  shows "filter (\<lambda>t. t \<noteq> []) (held_words (wrap_step m mw w st))
         = filter (\<lambda>t. t \<noteq> []) (held_words st) @ filter (\<lambda>t. t \<noteq> []) [w]"
proof (cases st)
  case (Pair lines cur)
  have word: "split_spaces w = [w]"
    using assms by (rule split_spaces_word)
  show ?thesis
  proof (cases "cur = []")
    case True
    with Pair word show ?thesis
      by (simp add: wrap_step_def held_words_def)
  next
    case False
    from Pair False word assms show ?thesis
      by (simp add: wrap_step_def held_words_def Let_def split_spaces_snoc_word)
  qed
qed

lemma held_words_fold:
  assumes "\<forall>w\<in>set ws. SP \<notin> set w"
  shows "filter (\<lambda>t. t \<noteq> []) (held_words (fold (wrap_step m mw) ws st))
         = filter (\<lambda>t. t \<noteq> []) (held_words st) @ filter (\<lambda>t. t \<noteq> []) ws"
  using assms
proof (induction ws arbitrary: st)
  case Nil
  show ?case by simp
next
  case (Cons w ws)
  then have "SP \<notin> set w" and rest: "\<forall>w\<in>set ws. SP \<notin> set w"
    by simp_all
  from rest have "filter (\<lambda>t. t \<noteq> []) (held_words (fold (wrap_step m mw) ws (wrap_step m mw w st)))
         = filter (\<lambda>t. t \<noteq> []) (held_words (wrap_step m mw w st)) @ filter (\<lambda>t. t \<noteq> []) ws"
    by (rule Cons.IH)
  also have "filter (\<lambda>t. t \<noteq> []) (held_words (wrap_step m mw w st))
             = filter (\<lambda>t. t \<noteq> []) (held_words st) @ filter (\<lambda>t. t \<noteq> []) [w]"
    using \<open>SP \<notin> set w\<close> by (rule held_words_step)
  finally show ?case
    by simp
qed

lemma wrapped_lines_held:
  "concat (map split_spaces (wrapped_lines m mw text))
   = held_words (fold (wrap_step m mw) (split_ws text) ([], []))"
  by (cases "fold (wrap_step m mw) (split_ws text) ([], [])")
     (simp add: wrapped_lines_def held_words_def)

lemma wrapped_lines_words:
  "filter (\<lambda>t. t \<noteq> []) (concat (map split_spaces (wrapped_lines m mw text)))
   = filter (\<lambda>t. t \<noteq> []) (split_ws text)"
proof -
  have "\<forall>w\<in>set (split_ws text). SP \<notin> set w"
    using split_ws_no_space by blast
  then have "filter (\<lambda>t. t \<noteq> []) (held_words (fold (wrap_step m mw) (split_ws text) ([], [])))
         = filter (\<lambda>t. t \<noteq> []) (held_words ([], [])) @ filter (\<lambda>t. t \<noteq> []) (split_ws text)"
    by (rule held_words_fold)
  then show ?thesis
    by (simp add: wrapped_lines_held held_words_def)
qed

text \<open>Greedy packing: a line wider than the maximum is a single word of the text.\<close>

lemma wrap_step_fits:
  assumes "\<forall>l\<in>set (fst st). m l \<le> mw \<or> l \<in> W"
    and "snd st = [] \<or> m (snd st) \<le> mw \<or> snd st \<in> W"
    and "w \<in> W"
  shows "(\<forall>l\<in>set (fst (wrap_step m mw w st)). m l \<le> mw \<or> l \<in> W)
       \<and> (snd (wrap_step m mw w st) = [] \<or> m (snd (wrap_step m mw w st)) \<le> mw
          \<or> snd (wrap_step m mw w st) \<in> W)"
proof (cases st)
  case (Pair lines cur)
  show ?thesis
  proof (cases "cur = []")
    case True
    with Pair assms show ?thesis
      by (simp add: wrap_step_def)
  next
    case False
    show ?thesis
    proof (cases "mw < m (cur @ [SP] @ w)")
      case True
      with Pair False assms show ?thesis
        by (simp add: wrap_step_def)
    next
      case False
      then have "m (cur @ [SP] @ w) \<le> mw"
        by (simp only: not_less)
      with Pair False \<open>cur \<noteq> []\<close> assms(1) show ?thesis
        by (simp add: wrap_step_def)
    qed
  qed
qed

lemma fold_wrap_step_fits:
  assumes "\<forall>l\<in>set (fst st). m l \<le> mw \<or> l \<in> W"
    and "snd st = [] \<or> m (snd st) \<le> mw \<or> snd st \<in> W"
    and "set ws \<subseteq> W"
  shows "(\<forall>l\<in>set (fst (fold (wrap_step m mw) ws st)). m l \<le> mw \<or> l \<in> W)
       \<and> (snd (fold (wrap_step m mw) ws st) = [] \<or> m (snd (fold (wrap_step m mw) ws st)) \<le> mw
          \<or> snd (fold (wrap_step m mw) ws st) \<in> W)"
  using assms
proof (induction ws arbitrary: st)
  case Nil
  then show ?case by simp
next
  case (Cons w ws)
  from Cons.prems have "w \<in> W" and rest: "set ws \<subseteq> W"
    by simp_all
  from wrap_step_fits [OF Cons.prems(1,2) \<open>w \<in> W\<close>] have step:
    "\<forall>l\<in>set (fst (wrap_step m mw w st)). m l \<le> mw \<or> l \<in> W"
    "snd (wrap_step m mw w st) = [] \<or> m (snd (wrap_step m mw w st)) \<le> mw
          \<or> snd (wrap_step m mw w st) \<in> W"
    by (rule conjunct1, rule conjunct2)
  from Cons.IH [OF step rest] show ?case
    by simp
qed

lemma wrapped_lines_fit:
  assumes "l \<in> set (wrapped_lines m mw text)"
  shows "m l \<le> mw \<or> l \<in> set (split_ws text)"
proof -
  let ?st = "fold (wrap_step m mw) (split_ws text) ([], [])"
  have "(\<forall>l\<in>set (fst ?st). m l \<le> mw \<or> l \<in> set (split_ws text))
      \<and> (snd ?st = [] \<or> m (snd ?st) \<le> mw \<or> snd ?st \<in> set (split_ws text))"
    by (rule fold_wrap_step_fits) simp_all
  then have inv: "\<forall>l\<in>set (fst ?st). m l \<le> mw \<or> l \<in> set (split_ws text)"
    "snd ?st = [] \<or> m (snd ?st) \<le> mw \<or> snd ?st \<in> set (split_ws text)"
    by (rule conjunct1, rule conjunct2)
  obtain lines cur where st: "?st = (lines, cur)"
    by (cases ?st)
  with assms have "l \<in> set lines \<or> (l = cur \<and> cur \<noteq> [])"
    by (auto simp: wrapped_lines_def split: if_splits)
  then show ?thesis
  proof
    assume "l \<in> set lines"
    with inv(1) st show ?thesis
      by simp
  next
    assume "l = cur \<and> cur \<noteq> []"
    with inv(2) st show ?thesis
      by simp
  qed
qed

text \<open>
  With a measurement under which a line is at least as wide as each of the two parts that
  a space joins, a word wider than the maximum is alone on its line.
\<close>

lemma wrap_step_alone:
  assumes mono: "\<forall>a b. m a \<le> m (a @ [SP] @ b) \<and> m b \<le> m (a @ [SP] @ b)"
    and inv: "\<forall>l\<in>insert (snd st) (set (fst st)). \<forall>t\<in>set (split_spaces l). mw < m t \<longrightarrow> l = t"
    and w: "SP \<notin> set w"
  shows "\<forall>l\<in>insert (snd (wrap_step m mw w st)) (set (fst (wrap_step m mw w st))).
           \<forall>t\<in>set (split_spaces l). mw < m t \<longrightarrow> l = t"
proof (cases st)
  case (Pair lines cur)
  define Q where "Q l \<longleftrightarrow> (\<forall>t\<in>set (split_spaces l). mw < m t \<longrightarrow> l = t)" for l
  from inv Pair have inv_lines: "\<forall>l\<in>set lines. Q l" and inv_cur: "Q cur"
    by (simp_all add: Q_def)
  have Qw: "Q w"
    using split_spaces_word [OF w] by (simp add: Q_def)
  have "\<forall>l\<in>insert (snd (wrap_step m mw w st)) (set (fst (wrap_step m mw w st))). Q l"
  proof (cases "cur = []")
    case True
    with Pair inv_lines Qw show ?thesis
      by (simp add: wrap_step_def)
  next
    case False
    show ?thesis
    proof (cases "mw < m (cur @ [SP] @ w)")
      case True
      with Pair False inv_lines inv_cur Qw show ?thesis
        by (simp add: wrap_step_def)
    next
      case over: False
      then have fits: "m (cur @ [SP] @ w) \<le> mw"
        by (simp only: not_less)
      from mono have le1: "m cur \<le> m (cur @ [SP] @ w)" and le2: "m w \<le> m (cur @ [SP] @ w)"
        by blast+
      have small: "m cur \<le> mw" "m w \<le> mw"
        using le1 fits apply (rule order_trans)
        using le2 fits apply (rule order_trans)
        done
      have no_cur: "\<not> mw < m t" if "t \<in> set (split_spaces cur)" for t
      proof
        assume wide: "mw < m t"
        with inv_cur that have "cur = t"
          by (simp add: Q_def)
        with wide small(1) show False
          by simp
      qed
      have tokens: "split_spaces (cur @ [SP] @ w) = split_spaces cur @ [w]"
        using split_spaces_snoc_word [OF w, of cur] by simp
      have "\<not> mw < m t" if "t \<in> set (split_spaces (cur @ [SP] @ w))" for t
      proof (cases "t = w")
        case True
        with small(2) show ?thesis
          by (simp only: not_less)
      next
        case False
        with that tokens have "t \<in> set (split_spaces cur)"
          by simp
        then show ?thesis
          by (rule no_cur)
      qed
      then have "Q (cur @ [SP] @ w)"
        unfolding Q_def by blast
      with Pair False over inv_lines show ?thesis
        by (simp add: wrap_step_def)
    qed
  qed
  then show ?thesis
    by (simp only: Q_def)
qed

lemma fold_wrap_step_alone:
  assumes mono: "\<forall>a b. m a \<le> m (a @ [SP] @ b) \<and> m b \<le> m (a @ [SP] @ b)"
    and inv: "\<forall>l\<in>insert (snd st) (set (fst st)). \<forall>t\<in>set (split_spaces l). mw < m t \<longrightarrow> l = t"
    and ws: "\<forall>w\<in>set ws. SP \<notin> set w"
  shows "\<forall>l\<in>insert (snd (fold (wrap_step m mw) ws st)) (set (fst (fold (wrap_step m mw) ws st))).
           \<forall>t\<in>set (split_spaces l). mw < m t \<longrightarrow> l = t"
  using inv ws
proof (induction ws arbitrary: st)
  case Nil
  then show ?case by simp
next
  case (Cons w ws)
  from Cons.prems(2) have w: "SP \<notin> set w" and rest: "\<forall>w\<in>set ws. SP \<notin> set w"
    by simp_all
  from mono Cons.prems(1) w
  have "\<forall>l\<in>insert (snd (wrap_step m mw w st)) (set (fst (wrap_step m mw w st))).
           \<forall>t\<in>set (split_spaces l). mw < m t \<longrightarrow> l = t"
    by (rule wrap_step_alone)
  from Cons.IH [OF this rest] show ?case
    by simp
qed

lemma wrapped_lines_alone:
  assumes mono: "\<forall>a b. m a \<le> m (a @ [SP] @ b) \<and> m b \<le> m (a @ [SP] @ b)"
    and "l \<in> set (wrapped_lines m mw text)" and "t \<in> set (split_spaces l)" and "mw < m t"
  shows "l = t"
proof -
  let ?st = "fold (wrap_step m mw) (split_ws text) ([], [])"
  have ws: "\<forall>w\<in>set (split_ws text). SP \<notin> set w"
    using split_ws_no_space by blast
  have start: "\<forall>l\<in>insert (snd ([], [])) (set (fst (([], []) :: jsstring list \<times> jsstring))).
                 \<forall>t\<in>set (split_spaces l). mw < m t \<longrightarrow> l = t"
    by simp
  have inv: "\<forall>l\<in>insert (snd ?st) (set (fst ?st)). \<forall>t\<in>set (split_spaces l). mw < m t \<longrightarrow> l = t"
    using mono start ws by (rule fold_wrap_step_alone)
  obtain lines cur where st: "?st = (lines, cur)"
    by (cases ?st)
  from assms(2) st have "l \<in> insert cur (set lines)"
    by (auto simp: wrapped_lines_def split: if_splits)
  with inv st have "\<forall>t\<in>set (split_spaces l). mw < m t \<longrightarrow> l = t"
    by auto
  with assms(3,4) show ?thesis
    by simp
qed

lemma truncate_lines_over:
  assumes "1 \<le> maxLines" and "maxLines < int (length lines)"
  shows "truncate_lines lines maxLines
         = Some (take (nat maxLines - 1) lines
                 @ [strip_trailing_dots (lines ! (nat maxLines - 1)) @ [ELLIPSIS]])"
proof -
  define n where "n = nat maxLines - 1"
  from assms have n: "nat maxLines = Suc n" "n < length lines"
    by (simp_all add: n_def)
  from assms have "slice0 lines maxLines = take (Suc n) lines"
    by (simp add: slice0_def n(1) min_def)
  also have "\<dots> = take n lines @ [lines ! n]"
    using n(2) by (rule take_Suc_conv_app_nth)
  finally have sl: "slice0 lines maxLines = take n lines @ [lines ! n]" .
  have len: "length (take n lines) = n"
    using n(2) by simp
  have upd: "(take n lines @ [lines ! n])[n := v] = take n lines @ [v]" for v
    using list_update_length [of "take n lines" "lines ! n" "[]" v] by (simp only: len)
  have nth: "(take n lines @ [lines ! n]) ! n = lines ! n"
    using nth_append_length [of "take n lines" "lines ! n" "[]"] by (simp only: len)
  have l2: "length (take n lines @ [lines ! n]) - 1 = n"
    using n(2) by simp
  show ?thesis
    unfolding truncate_lines_def sl Let_def l2 upd nth n_def [symmetric]
    using assms(2) by simp
qed

lemma truncate_lines_within:
  "int (length lines) \<le> maxLines \<Longrightarrow> truncate_lines lines maxLines = Some lines"
  by (simp add: truncate_lines_def)

lemma drawWrappedText_drawn:
  assumes "truncate_lines (wrapped_lines m mw text) maxLines = Some truncated"
  shows "\<exists>r. drawWrappedText m text x y mw lineHeight maxLines = Some r
           \<and> drawn_lines r = truncated
           \<and> returned r = y + int (length truncated) * lineHeight"
proof -
  have "map fst (map (\<lambda>index. (truncated ! index, x, y + int index * lineHeight))
                  [0..<length truncated]) = truncated"
    by (simp add: comp_def map_nth)
  with assms show ?thesis
    by (simp add: drawWrappedText_def drawn_lines_def)
qed

lemma drawWrappedText_TypeError:
  "truncate_lines (wrapped_lines m mw text) maxLines = None \<Longrightarrow>
   drawWrappedText m text x y mw lineHeight maxLines = None"
  by (simp add: drawWrappedText_def)

lemma ends_with_single_ellipsis_snoc:
  "ends_with_single_ellipsis (s @ [ELLIPSIS]) \<longleftrightarrow> s = [] \<or> last s \<noteq> ELLIPSIS"
proof (cases "rev s")
  case Nil
  then show ?thesis
    by (simp add: ends_with_single_ellipsis_def)
next
  case (Cons c cs)
  then have "s = rev cs @ [c]"
    by (simp add: rev_eq_Cons_iff)
  then show ?thesis
    by (simp add: ends_with_single_ellipsis_def)
qed

text \<open>
  Claim C5, as amended. For every text, measurement and maximal width, the wrap never
  splits a word: the non-empty words on its lines, read in order, are the non-empty words
  of the text; and a line wider than the maximum consists of a single word. When the
  measurement gives a line at least the width of each of the two parts that a space joins,
  a word wider than the maximum is alone on its line. For a maximal line count of at least
  1: when the wrap has more lines, exactly that many lines are drawn, the earlier ones
  unchanged and the last one made of the corresponding line of the wrap, without its
  trailing periods and middle dots, followed by the ellipsis marker; this last line ends
  with a single marker provided the text before the marker does not itself end with one.
  When the wrap has no more lines than the maximum, its lines are drawn unchanged.
\<close>

theorem C5_wrap_and_truncate:
  fixes measureText :: "jsstring \<Rightarrow> 'w::linorder"
  shows "filter (\<lambda>w. w \<noteq> []) (concat (map split_spaces (wrapped_lines measureText maxWidth text)))
           = filter (\<lambda>w. w \<noteq> []) (split_ws text)
    \<and> (\<forall>l\<in>set (wrapped_lines measureText maxWidth text).
          measureText l \<le> maxWidth \<or> l \<in> set (split_ws text))
    \<and> ((\<forall>a b. measureText a \<le> measureText (a @ [SP] @ b)
              \<and> measureText b \<le> measureText (a @ [SP] @ b)) \<longrightarrow>
        (\<forall>l\<in>set (wrapped_lines measureText maxWidth text).
           \<forall>w\<in>set (split_spaces l). maxWidth < measureText w \<longrightarrow> l = w))
    \<and> (1 \<le> maxLines \<and> maxLines < int (length (wrapped_lines measureText maxWidth text)) \<longrightarrow>
        (\<exists>r. drawWrappedText measureText text x y maxWidth lineHeight maxLines = Some r
            \<and> int (length (drawn_lines r)) = maxLines
            \<and> butlast (drawn_lines r)
                = take (nat maxLines - 1) (wrapped_lines measureText maxWidth text)
            \<and> last (drawn_lines r)
                = strip_trailing_dots (wrapped_lines measureText maxWidth text ! (nat maxLines - 1))
                  @ [ELLIPSIS]
            \<and> (strip_trailing_dots (wrapped_lines measureText maxWidth text ! (nat maxLines - 1)) = []
                \<or> last (strip_trailing_dots
                          (wrapped_lines measureText maxWidth text ! (nat maxLines - 1)))
                    \<noteq> ELLIPSIS
                \<longrightarrow> ends_with_single_ellipsis (last (drawn_lines r)))))
    \<and> (int (length (wrapped_lines measureText maxWidth text)) \<le> maxLines \<longrightarrow>
        (\<exists>r. drawWrappedText measureText text x y maxWidth lineHeight maxLines = Some r
            \<and> drawn_lines r = wrapped_lines measureText maxWidth text))"
proof (intro conjI impI ballI)
  show "filter (\<lambda>w. w \<noteq> []) (concat (map split_spaces (wrapped_lines measureText maxWidth text)))
           = filter (\<lambda>w. w \<noteq> []) (split_ws text)"
    by (rule wrapped_lines_words)
next
  fix l
  assume "l \<in> set (wrapped_lines measureText maxWidth text)"
  then show "measureText l \<le> maxWidth \<or> l \<in> set (split_ws text)"
    by (rule wrapped_lines_fit)
next
  fix l w
  assume "\<forall>a b. measureText a \<le> measureText (a @ [SP] @ b)
              \<and> measureText b \<le> measureText (a @ [SP] @ b)"
    and "l \<in> set (wrapped_lines measureText maxWidth text)"
    and "w \<in> set (split_spaces l)" and "maxWidth < measureText w"
  then show "l = w"
    by (rule wrapped_lines_alone)
next
  let ?lines = "wrapped_lines measureText maxWidth text"
  let ?kept = "strip_trailing_dots (?lines ! (nat maxLines - 1))"
  assume over: "1 \<le> maxLines \<and> maxLines < int (length ?lines)"
  then have tr: "truncate_lines ?lines maxLines
                 = Some (take (nat maxLines - 1) ?lines @ [?kept @ [ELLIPSIS]])"
    by (intro truncate_lines_over) simp_all
  from drawWrappedText_drawn [OF tr, of x y lineHeight]
  obtain r where r: "drawWrappedText measureText text x y maxWidth lineHeight maxLines = Some r"
    and drawn: "drawn_lines r = take (nat maxLines - 1) ?lines @ [?kept @ [ELLIPSIS]]"
    by blast
  from over have "nat maxLines - 1 < length ?lines"
    by linarith
  then have "length (take (nat maxLines - 1) ?lines) = nat maxLines - 1"
    by simp
  with over have len: "int (length (drawn_lines r)) = maxLines"
    unfolding drawn by (simp del: length_take)
  have single: "?kept = [] \<or> last ?kept \<noteq> ELLIPSIS
                \<longrightarrow> ends_with_single_ellipsis (last (drawn_lines r))"
    by (simp add: drawn ends_with_single_ellipsis_snoc)
  from r drawn len single
  show "\<exists>r. drawWrappedText measureText text x y maxWidth lineHeight maxLines = Some r
            \<and> int (length (drawn_lines r)) = maxLines
            \<and> butlast (drawn_lines r) = take (nat maxLines - 1) ?lines
            \<and> last (drawn_lines r) = ?kept @ [ELLIPSIS]
            \<and> (?kept = [] \<or> last ?kept \<noteq> ELLIPSIS
                \<longrightarrow> ends_with_single_ellipsis (last (drawn_lines r)))"
    by (intro exI [of _ r]) (simp add: butlast_append)
next
  let ?lines = "wrapped_lines measureText maxWidth text"
  assume "int (length ?lines) \<le> maxLines"
  then have "truncate_lines ?lines maxLines = Some ?lines"
    by (rule truncate_lines_within)
  from drawWrappedText_drawn [OF this, of x y lineHeight]
  show "\<exists>r. drawWrappedText measureText text x y maxWidth lineHeight maxLines = Some r
            \<and> drawn_lines r = ?lines"
    by blast
qed

lemma wrap_example:
  "wrapped_lines length_measure 5 (ascii ''aa bb. cc dddddddd e'')
   = [ascii ''aa'', ascii ''bb.'', ascii ''cc'', ascii ''dddddddd'', ascii ''e'']"
  by code_simp

lemma length_measure_mono:
  "\<forall>a b. length_measure a \<le> length_measure (a @ [SP] @ b)
       \<and> length_measure b \<le> length_measure (a @ [SP] @ b)"
  by (simp add: length_measure_def)

theorem C5_wrap_and_truncate_witness:
  "wrapped_lines length_measure 5 (ascii ''aa bb. cc dddddddd e'')
     = [ascii ''aa'', ascii ''bb.'', ascii ''cc'', ascii ''dddddddd'', ascii ''e'']
   \<and> split_spaces (ascii ''dddddddd'') = [ascii ''dddddddd'']
   \<and> (5::nat) < length_measure (ascii ''dddddddd'')
   \<and> (1::int) \<le> 2
   \<and> map_option drawn_lines
        (drawWrappedText length_measure (ascii ''aa bb. cc dddddddd e'') 120 230 5 72 2)
       = Some [ascii ''aa'', ascii ''bb'' @ [ELLIPSIS]]
   \<and> ends_with_single_ellipsis (ascii ''bb'' @ [ELLIPSIS])"
proof -
  let ?text = "ascii ''aa bb. cc dddddddd e''"
  let ?lines = "wrapped_lines length_measure 5 ?text"
  note c5 = C5_wrap_and_truncate [of length_measure 5 ?text 2 120 230 72]
  have over: "(1::int) \<le> 2 \<and> 2 < int (length ?lines)"
    by (simp add: wrap_example)
  have kept: "strip_trailing_dots (?lines ! (nat 2 - 1)) = ascii ''bb''"
    unfolding wrap_example by code_simp
  have clean: "strip_trailing_dots (?lines ! (nat 2 - 1)) = []
       \<or> last (strip_trailing_dots (?lines ! (nat 2 - 1))) \<noteq> ELLIPSIS"
    unfolding kept by code_simp
  from c5 over clean obtain r where
    r: "drawWrappedText length_measure ?text 120 230 5 72 2 = Some r"
    and len: "int (length (drawn_lines r)) = 2"
    and front: "butlast (drawn_lines r) = take (nat 2 - 1) ?lines"
    and final: "last (drawn_lines r) = strip_trailing_dots (?lines ! (nat 2 - 1)) @ [ELLIPSIS]"
    and single: "ends_with_single_ellipsis (last (drawn_lines r))"
    by blast
  from len have "drawn_lines r \<noteq> []"
    by auto
  then have "drawn_lines r = butlast (drawn_lines r) @ [last (drawn_lines r)]"
    by simp
  then have drawn: "drawn_lines r = [ascii ''aa'', ascii ''bb'' @ [ELLIPSIS]]"
    unfolding front final kept by (simp add: wrap_example)
  from single have "ends_with_single_ellipsis (ascii ''bb'' @ [ELLIPSIS])"
    by (simp add: drawn)
  moreover have "split_spaces (ascii ''dddddddd'') = [ascii ''dddddddd'']"
    by code_simp
  moreover have "(5::nat) < length_measure (ascii ''dddddddd'')"
    by code_simp
  ultimately show ?thesis
    using r drawn by (simp add: wrap_example)
qed

text \<open>
  Claim C5 as stated fails in three ways. With a measurement that gives width 10 to the
  word \<open>w\<close> alone and width 0 to every other line, and maximal width 5, the text \<open>a w\<close>
  is wrapped into the single line \<open>a w\<close>: the word \<open>w\<close> is wider than the maximum and is
  not alone on its line. With a maximal line count of 0, the text \<open>a\<close> wraps into one
  line, more than the maximum, and the call throws instead of drawing. With the text
  \<open>a\<dots> b\<close> (the word \<open>a\<close> followed by an ellipsis marker), two lines and a maximal line
  count of 1, the line drawn is \<open>a\<close> followed by two ellipsis markers.
\<close>

theorem C5_wrap_counterexample:
  "(5::nat) < lone_w_measure (ascii ''w'')
   \<and> split_ws (ascii ''a w'') = [ascii ''a'', ascii ''w'']
   \<and> wrapped_lines lone_w_measure 5 (ascii ''a w'') = [ascii ''a w'']
   \<and> wrapped_lines length_measure 5 (ascii ''a'') = [ascii ''a'']
   \<and> drawWrappedText length_measure (ascii ''a'') 0 0 5 10 0 = None
   \<and> wrapped_lines length_measure 2 (ascii ''a'' @ [ELLIPSIS] @ ascii '' b'')
       = [ascii ''a'' @ [ELLIPSIS], ascii ''b'']
   \<and> map_option drawn_lines
        (drawWrappedText length_measure (ascii ''a'' @ [ELLIPSIS] @ ascii '' b'') 0 0 2 10 1)
       = Some [ascii ''a'' @ [ELLIPSIS, ELLIPSIS]]
   \<and> \<not> ends_with_single_ellipsis (ascii ''a'' @ [ELLIPSIS, ELLIPSIS])"
  by code_simp

end
